theory Spec2Isabelle
  imports Main "HOL-Library.Multiset"
begin

section \<open>Outcomes of Python calls\<close>

text \<open>
  A call of the Python code either returns a value, raises an exception, or (for the
  \<^verbatim>\<open>while\<close> loops of \<^verbatim>\<open>find\<close>) runs forever.  The outcome type is
  \<open>(error + 'a) option\<close>: \<open>None\<close> is a loop that never ends, \<open>Some (Inl e)\<close> a raised
  exception, \<open>Some (Inr v)\<close> a normal return.
\<close>

datatype error = KeyError | IndexError | ValueError | IllegalHeight | IllegalWidth

type_synonym 'a result = "(error + 'a) option"

definition rbind :: "'a result \<Rightarrow> ('a \<Rightarrow> 'b result) \<Rightarrow> 'b result" where
  "rbind m f = (case m of None \<Rightarrow> None | Some (Inl e) \<Rightarrow> Some (Inl e) | Some (Inr v) \<Rightarrow> f v)"

definition lookup :: "('k \<rightharpoonup> 'v) \<Rightarrow> 'k \<Rightarrow> 'v result" where
  \<comment> \<open>\<^verbatim>\<open>d[k]\<close> on a dict: a missing key raises KeyError\<close>
  "lookup d k = (case d k of None \<Rightarrow> Some (Inl KeyError) | Some v \<Rightarrow> Some (Inr v))"

section \<open>disjoint\_set.py: WeightQuickUnionDisjointSet\<close>

record dset =
  count' :: int
  parent_map :: "int \<rightharpoonup> int"
  sz_map :: "int \<rightharpoonup> int"

definition wqu_init :: "int \<Rightarrow> error + dset" where
  \<comment> \<open>\<^verbatim>\<open>__init__\<close>: no \<^verbatim>\<open>raise\<close>; \<^verbatim>\<open>range(n)\<close> is empty for \<open>n \<le> 0\<close>\<close>
  "wqu_init n = Inr (fold (\<lambda>i s. s\<lparr>parent_map := (parent_map s)(i \<mapsto> i),
                                     sz_map := (sz_map s)(i \<mapsto> 1)\<rparr>)
                       [0..n - 1]
                       \<lparr>count' = n, parent_map = Map.empty, sz_map = Map.empty\<rparr>)"

partial_function (option) find_root :: "(int \<rightharpoonup> int) \<Rightarrow> int \<Rightarrow> int result" where
  \<comment> \<open>first loop of \<^verbatim>\<open>find\<close>: \<^verbatim>\<open>while q != parent_map[q]: q = parent_map[q]\<close>\<close>
  "find_root pm q =
     (case pm q of None \<Rightarrow> Some (Inl KeyError)
      | Some r \<Rightarrow> if q \<noteq> r then find_root pm r else Some (Inr q))"

partial_function (option) compress ::
    "int \<Rightarrow> (int \<rightharpoonup> int) \<Rightarrow> (int \<rightharpoonup> int) \<Rightarrow> int \<Rightarrow> ((int \<rightharpoonup> int) \<times> (int \<rightharpoonup> int)) result" where
  \<comment> \<open>second loop of \<^verbatim>\<open>find\<close>: repoint \<open>p\<close> to \<open>q\<close>, record size 2, go on with the old parent\<close>
  "compress q pm sz p =
     (case pm p of None \<Rightarrow> Some (Inl KeyError)
      | Some r \<Rightarrow> if p \<noteq> r then compress q (pm(p \<mapsto> q)) (sz(p \<mapsto> 2)) r
                  else Some (Inr (pm, sz)))"

declare find_root.simps [code]
declare compress.simps [code]

definition wqu_find :: "dset \<Rightarrow> int \<Rightarrow> (dset \<times> int) result" where
  "wqu_find s p =
     rbind (find_root (parent_map s) p) (\<lambda>q.
     rbind (compress q (parent_map s) (sz_map s) p) (\<lambda>(pm, sz).
     Some (Inr (s\<lparr>parent_map := pm, sz_map := sz\<rparr>, q))))"

definition wqu_union :: "dset \<Rightarrow> int \<Rightarrow> int \<Rightarrow> dset result" where
  "wqu_union s p q =
     rbind (wqu_find s p) (\<lambda>(s1, p_root).
     rbind (wqu_find s1 q) (\<lambda>(s2, q_root).
     if q_root = p_root then Some (Inr s2)
     else
       rbind (lookup (sz_map s2) p_root) (\<lambda>szp.
       rbind (lookup (sz_map s2) q_root) (\<lambda>szq.
       if szp < szq
       then Some (Inr (s2\<lparr>parent_map := (parent_map s2)(p_root \<mapsto> q_root),
                          sz_map := (sz_map s2)(q_root \<mapsto> szp + szq),
                          count' := count' s2 - 1\<rparr>))
       else Some (Inr (s2\<lparr>parent_map := (parent_map s2)(q_root \<mapsto> p_root),
                          sz_map := (sz_map s2)(p_root \<mapsto> szp + szq),
                          count' := count' s2 - 1\<rparr>))))))"

definition wqu_is_connected :: "dset \<Rightarrow> int \<Rightarrow> int \<Rightarrow> (dset \<times> bool) result" where
  "wqu_is_connected s p q =
     rbind (wqu_find s p) (\<lambda>(s1, rp).
     rbind (wqu_find s1 q) (\<lambda>(s2, rq).
     Some (Inr (s2, rp = rq))))"

definition wqu_count :: "dset \<Rightarrow> int" where
  "wqu_count s = count' s"

section \<open>Notions used to state the properties of the disjoint set\<close>

text \<open>
  \<open>root_of pm x r\<close>: following parents from \<open>x\<close> in the parent map \<open>pm\<close> ends at the
  self-parented element \<open>r\<close>.  \<open>anc pm x z\<close>: \<open>z\<close> lies on the parent path that starts
  at \<open>x\<close> (\<open>x\<close> itself included).
\<close>

inductive root_of :: "(int \<rightharpoonup> int) \<Rightarrow> int \<Rightarrow> int \<Rightarrow> bool" for pm where
  root_self: "pm x = Some x \<Longrightarrow> root_of pm x x"
| root_step: "pm x = Some y \<Longrightarrow> y \<noteq> x \<Longrightarrow> root_of pm y r \<Longrightarrow> root_of pm x r"

inductive anc :: "(int \<rightharpoonup> int) \<Rightarrow> int \<Rightarrow> int \<Rightarrow> bool" for pm where
  anc_self: "anc pm x x"
| anc_step: "pm x = Some y \<Longrightarrow> y \<noteq> x \<Longrightarrow> anc pm y z \<Longrightarrow> anc pm x z"

definition compressed :: "(int \<rightharpoonup> 'a) \<Rightarrow> (int \<rightharpoonup> int) \<Rightarrow> int \<Rightarrow> int \<Rightarrow> 'a \<Rightarrow> (int \<rightharpoonup> 'a)" where
  "compressed m pm p q v = (\<lambda>x. if anc pm p x \<and> x \<noteq> q then Some v else m x)"

definition roots :: "dset \<Rightarrow> int set" where
  "roots s = {r. parent_map s r = Some r}"

definition set_of :: "dset \<Rightarrow> int \<Rightarrow> int set" where
  "set_of s r = {x. root_of (parent_map s) x r}"

definition same_set :: "dset \<Rightarrow> int \<Rightarrow> int \<Rightarrow> bool" where
  "same_set s x y \<longleftrightarrow> (\<exists>r. root_of (parent_map s) x r \<and> root_of (parent_map s) y r)"

definition dset_inv :: "int \<Rightarrow> dset \<Rightarrow> bool" where
  "dset_inv n s \<longleftrightarrow>
     dom (parent_map s) = {0..<n} \<and> dom (sz_map s) = {0..<n} \<and>
     (\<forall>x\<in>{0..<n}. \<exists>r. root_of (parent_map s) x r) \<and>
     count' s = int (card (roots s)) \<and>
     (\<forall>r\<in>roots s. sz_map s r = Some (int (card (set_of s r))))"

definition compress_state :: "dset \<Rightarrow> int \<Rightarrow> int \<Rightarrow> dset" where
  "compress_state s p q =
     s\<lparr>parent_map := compressed (parent_map s) (parent_map s) p q q,
       sz_map := compressed (sz_map s) (parent_map s) p q 2\<rparr>"

definition link_state :: "dset \<Rightarrow> int \<Rightarrow> int \<Rightarrow> dset" where
  "link_state s a b =
     s\<lparr>parent_map := (parent_map s)(a \<mapsto> b),
       sz_map := (sz_map s)(b \<mapsto> the (sz_map s a) + the (sz_map s b)),
       count' := count' s - 1\<rparr>"

text \<open>
  Sequences of calls on one structure, run from a fresh \<^verbatim>\<open>WeightQuickUnionDisjointSet(n)\<close>;
  the graph of the \<^verbatim>\<open>union\<close> calls and its connected components.
\<close>

datatype op = Union int int | Find int | IsConnected int int | Count

fun exec_op :: "dset \<Rightarrow> op \<Rightarrow> dset result" where
  "exec_op s (Union p q) = wqu_union s p q"
| "exec_op s (Find p) = rbind (wqu_find s p) (\<lambda>(s', r). Some (Inr s'))"
| "exec_op s (IsConnected p q) = rbind (wqu_is_connected s p q) (\<lambda>(s', b). Some (Inr s'))"
| "exec_op s Count = Some (Inr s)"

fun exec_ops :: "dset \<Rightarrow> op list \<Rightarrow> dset result" where
  "exec_ops s [] = Some (Inr s)"
| "exec_ops s (x # xs) = rbind (exec_op s x) (\<lambda>s'. exec_ops s' xs)"

definition run :: "int \<Rightarrow> op list \<Rightarrow> dset result" where
  "run n ops = (case wqu_init n of Inl e \<Rightarrow> Some (Inl e) | Inr s \<Rightarrow> exec_ops s ops)"

fun op_ok :: "int \<Rightarrow> op \<Rightarrow> bool" where
  "op_ok n (Union p q) \<longleftrightarrow> 0 \<le> p \<and> p < n \<and> 0 \<le> q \<and> q < n"
| "op_ok n (Find p) \<longleftrightarrow> 0 \<le> p \<and> p < n"
| "op_ok n (IsConnected p q) \<longleftrightarrow> 0 \<le> p \<and> p < n \<and> 0 \<le> q \<and> q < n"
| "op_ok n Count \<longleftrightarrow> True"

fun union_edges :: "op list \<Rightarrow> (int \<times> int) list" where
  "union_edges [] = []"
| "union_edges (Union p q # xs) = (p, q) # union_edges xs"
| "union_edges (_ # xs) = union_edges xs"

definition component :: "('v \<times> 'v) set \<Rightarrow> ('v \<times> 'v) set" where
  "component E = (E \<union> E\<inverse>)\<^sup>*"

definition agrees :: "int \<Rightarrow> dset \<Rightarrow> (int \<times> int) set \<Rightarrow> bool" where
  "agrees n s E \<longleftrightarrow>
     (\<forall>x y. same_set s x y \<longleftrightarrow> 0 \<le> x \<and> x < n \<and> 0 \<le> y \<and> y < n \<and> (x, y) \<in> component E)"

definition flat :: "dset \<Rightarrow> int \<Rightarrow> bool" where
  \<comment> \<open>the direct parent of \<open>x\<close> is a root\<close>
  "flat s x \<longleftrightarrow> (\<exists>r. parent_map s x = Some r \<and> parent_map s r = Some r)"

definition components :: "int \<Rightarrow> (int \<times> int) set \<Rightarrow> int set set" where
  \<comment> \<open>the connected components of the graph with vertices \<open>0..<n\<close> and edges \<open>E\<close>\<close>
  "components n E = (\<lambda>x. {y. 0 \<le> y \<and> y < n \<and> (x, y) \<in> component E}) ` {0..<n}"

definition state_of :: "dset result \<Rightarrow> dset" where
  \<comment> \<open>the state a call chain returned (an empty structure if it did not return)\<close>
  "state_of r = (case r of Some (Inr s) \<Rightarrow> s
                 | _ \<Rightarrow> \<lparr>count' = 0, parent_map = Map.empty, sz_map = Map.empty\<rparr>)"

definition init_state :: "int \<Rightarrow> dset" where
  "init_state n = \<lparr>count' = n, parent_map = (\<lambda>i. if 0 \<le> i \<and> i < n then Some i else None),
                    sz_map = (\<lambda>i. if 0 \<le> i \<and> i < n then Some 1 else None)\<rparr>"

section \<open>cell\_dset.py: MazeCellDSet\<close>

record cell_dset =
  dwidth :: int
  dheight :: int
  index_map :: "int \<rightharpoonup> int"
  dset :: dset

definition lift :: "error + 'a \<Rightarrow> 'a result" where
  "lift r = Some r"

definition mcd_init :: "(int \<times> int) list \<Rightarrow> int \<Rightarrow> int \<Rightarrow> error + cell_dset" where
  "mcd_init point_ls w h =
     (case wqu_init (int (length point_ls)) of Inl e \<Rightarrow> Inl e
      | Inr d \<Rightarrow>
          Inr \<lparr>dwidth = w, dheight = h,
               index_map = fold (\<lambda>(i, (x, y)) m. m(x + y * w \<mapsto> int i)) (enumerate 0 point_ls) Map.empty,
               dset = d\<rparr>)"

definition mcd_find :: "cell_dset \<Rightarrow> int \<Rightarrow> int \<Rightarrow> (cell_dset \<times> int) result" where
  "mcd_find c x y =
     rbind (lookup (index_map c) (x + y * dwidth c)) (\<lambda>i.
     rbind (wqu_find (dset c) i) (\<lambda>(d, r).
     Some (Inr (c\<lparr>dset := d\<rparr>, r))))"

definition mcd_is_connected ::
    "cell_dset \<Rightarrow> int \<Rightarrow> int \<Rightarrow> int \<Rightarrow> int \<Rightarrow> (cell_dset \<times> bool) result" where
  "mcd_is_connected c x1 y1 x2 y2 =
     rbind (mcd_find c x1 y1) (\<lambda>(c1, r1).
     rbind (mcd_find c1 x2 y2) (\<lambda>(c2, r2).
     Some (Inr (c2, r1 = r2))))"

definition mcd_union :: "cell_dset \<Rightarrow> int \<Rightarrow> int \<Rightarrow> int \<Rightarrow> int \<Rightarrow> cell_dset result" where
  "mcd_union c x1 y1 x2 y2 =
     rbind (lookup (index_map c) (x1 + y1 * dwidth c)) (\<lambda>i1.
     rbind (lookup (index_map c) (x2 + y2 * dwidth c)) (\<lambda>i2.
     rbind (wqu_union (dset c) i1 i2) (\<lambda>d.
     Some (Inr (c\<lparr>dset := d\<rparr>)))))"

definition mcd_count :: "cell_dset \<Rightarrow> int" where
  "mcd_count c = wqu_count (dset c)"

section \<open>kruskal\_gen.py: KruskalMaze\<close>

text \<open>
  The grid is the numpy array \<^verbatim>\<open>numpy.ones((width, height))\<close>, indexed \<^verbatim>\<open>grid[x][y]\<close>:
  a list of \<open>width\<close> rows of \<open>height\<close> entries.  Its entries are only ever the
  floats 1.0 and 0.0, written here as the integers 1 and 0.
\<close>

type_synonym grid = "int list list"

record maze =
  height :: int
  width :: int
  index_ls :: "int list"
  grid :: grid

text \<open>
  The three calls into \<^verbatim>\<open>numpy.random\<close> are modelled by their outcomes: the order
  \<^verbatim>\<open>shuffle\<close> leaves the list in, the integer \<^verbatim>\<open>randint\<close> returns and the index
  array \<^verbatim>\<open>choice\<close> returns.  What numpy promises about each outcome is \<open>rng_ok\<close>
  below.
\<close>

record rng =
  shuffled :: "(int \<times> int) list"
  additional_wall :: int
  chosen :: "int list"

definition py_range :: "int \<Rightarrow> int \<Rightarrow> int \<Rightarrow> int list" where
  \<comment> \<open>\<^verbatim>\<open>range(start, stop, step)\<close> for a positive step\<close>
  "py_range start stop step = filter (\<lambda>x. (x - start) mod step = 0) [start..stop - 1]"

definition cell_ls :: "int \<Rightarrow> int \<Rightarrow> (int \<times> int) list" where
  "cell_ls w h = concat (map (\<lambda>x. map (\<lambda>y. (x, y)) (py_range 0 h 2)) (py_range 0 w 2))"

definition not_care_ls :: "int \<Rightarrow> int \<Rightarrow> (int \<times> int) list" where
  "not_care_ls w h = concat (map (\<lambda>x. map (\<lambda>y. (x, y)) (py_range 1 h 2)) (py_range 1 w 2))"

definition wall_ls :: "int \<Rightarrow> int \<Rightarrow> (int \<times> int) list" where
  "wall_ls w h =
     concat (map (\<lambda>x. map (\<lambda>y. (x, y)) (py_range 0 h 2)) (py_range 1 w 2)) @
     concat (map (\<lambda>x. map (\<lambda>y. (x, y)) (py_range 1 h 2)) (py_range 0 w 2))"

definition ones :: "int \<Rightarrow> int \<Rightarrow> grid" where
  "ones w h = replicate (nat w) (replicate (nat h) 1)"

definition norm_index :: "int \<Rightarrow> nat \<Rightarrow> error + nat" where
  \<comment> \<open>numpy indexing along one axis: a negative index counts from the end\<close>
  "norm_index i n =
     (if 0 \<le> i \<and> i < int n then Inr (nat i)
      else if - int n \<le> i \<and> i < 0 then Inr (nat (i + int n))
      else Inl IndexError)"

definition grid_set :: "grid \<Rightarrow> int \<Rightarrow> int \<Rightarrow> int \<Rightarrow> error + grid" where
  \<comment> \<open>\<^verbatim>\<open>grid[x][y] = v\<close>\<close>
  "grid_set g x y v =
     (case norm_index x (length g) of Inl e \<Rightarrow> Inl e
      | Inr i \<Rightarrow>
          (case norm_index y (length (g ! i)) of Inl e \<Rightarrow> Inl e
           | Inr j \<Rightarrow> Inr (g[i := (g ! i)[j := v]])))"

definition py_nth :: "'a list \<Rightarrow> int \<Rightarrow> error + 'a" where
  \<comment> \<open>\<^verbatim>\<open>xs[i]\<close> on a Python list\<close>
  "py_nth xs i =
     (case norm_index i (length xs) of Inl e \<Rightarrow> Inl e | Inr j \<Rightarrow> Inr (xs ! j))"

fun clear_cells :: "grid \<Rightarrow> (int \<times> int) list \<Rightarrow> error + grid" where
  \<comment> \<open>\<^verbatim>\<open>for x, y in cell_ls: self.grid[x][y] = 0\<close>\<close>
  "clear_cells g [] = Inr g"
| "clear_cells g ((x, y) # ps) =
     (case grid_set g x y 0 of Inl e \<Rightarrow> Inl e | Inr g' \<Rightarrow> clear_cells g' ps)"

definition carve_step :: "grid \<Rightarrow> cell_dset \<Rightarrow> int \<times> int \<Rightarrow> (grid \<times> cell_dset) result" where
  \<comment> \<open>the body of the carving loop after the \<^verbatim>\<open>break\<close> test\<close>
  "carve_step g c xy =
     (case xy of (x, y) \<Rightarrow>
       if x mod 2 = 1 then
         rbind (mcd_is_connected c (x - 1) y (x + 1) y) (\<lambda>(c1, b).
         if \<not> b then
           rbind (mcd_union c1 (x - 1) y (x + 1) y) (\<lambda>c2.
           rbind (lift (grid_set g x y 0)) (\<lambda>g'.
           Some (Inr (g', c2))))
         else Some (Inr (g, c1)))
       else
         rbind (mcd_is_connected c x (y - 1) x (y + 1)) (\<lambda>(c1, b).
         if \<not> b then
           rbind (lift (grid_set g x y 0)) (\<lambda>g'.
           rbind (mcd_union c1 x (y - 1) x (y + 1)) (\<lambda>c2.
           Some (Inr (g', c2))))
         else Some (Inr (g, c1))))"

fun carve :: "grid \<Rightarrow> cell_dset \<Rightarrow> (int \<times> int) list \<Rightarrow> (grid \<times> cell_dset) result" where
  \<comment> \<open>\<^verbatim>\<open>for x, y in wall_ls: if cell_dset.count() == 1: break ...\<close>\<close>
  "carve g c [] = Some (Inr (g, c))"
| "carve g c (xy # ws) =
     (if mcd_count c = 1 then Some (Inr (g, c))
      else case carve_step g c xy of
             None \<Rightarrow> None
           | Some (Inl e) \<Rightarrow> Some (Inl e)
           | Some (Inr (g', c')) \<Rightarrow> carve g' c' ws)"

definition randint :: "rng \<Rightarrow> int \<Rightarrow> int \<Rightarrow> error + int" where
  \<comment> \<open>\<^verbatim>\<open>numpy.random.randint(low, high)\<close>: ValueError unless \<open>low < high\<close>\<close>
  "randint r low high = (if low < high then Inr (additional_wall r) else Inl ValueError)"

definition choice :: "rng \<Rightarrow> int \<Rightarrow> int \<Rightarrow> error + int list" where
  \<comment> \<open>\<^verbatim>\<open>numpy.random.choice(a, size, False)\<close>: ValueError when the size exceeds the population\<close>
  "choice r a k = (if 0 \<le> k \<and> k \<le> a then Inr (chosen r) else Inl ValueError)"

fun open_dots :: "grid \<Rightarrow> (int \<times> int) list \<Rightarrow> int list \<Rightarrow> error + grid" where
  \<comment> \<open>\<^verbatim>\<open>for i in ...: x, y = not_care_ls[i]; self.grid[x][y] = 0\<close>\<close>
  "open_dots g ncl [] = Inr g"
| "open_dots g ncl (i # is) =
     (case py_nth ncl i of Inl e \<Rightarrow> Inl e
      | Inr (x, y) \<Rightarrow>
          (case grid_set g x y 0 of Inl e \<Rightarrow> Inl e | Inr g' \<Rightarrow> open_dots g' ncl is))"

definition cosmetic :: "rng \<Rightarrow> grid \<Rightarrow> (int \<times> int) list \<Rightarrow> error + grid" where
  \<comment> \<open>the last four lines of \<^verbatim>\<open>__init__\<close>\<close>
  "cosmetic r g ncl =
     (case randint r 0 (int (length ncl)) of Inl e \<Rightarrow> Inl e
      | Inr k \<Rightarrow>
          (case choice r (int (length ncl)) k of Inl e \<Rightarrow> Inl e
           | Inr is \<Rightarrow> open_dots g ncl is))"

definition KruskalMaze :: "int \<Rightarrow> int \<Rightarrow> rng \<Rightarrow> maze result" where
  "KruskalMaze w h r =
     (if h mod 2 = 0 \<or> h < 3 then Some (Inl IllegalHeight)
      else if w mod 2 = 0 \<or> w < 3 then Some (Inl IllegalWidth)
      else
        rbind (lift (clear_cells (ones w h) (cell_ls w h))) (\<lambda>g1.
        rbind (lift (mcd_init (cell_ls w h) w h)) (\<lambda>c.
        rbind (carve g1 c (shuffled r)) (\<lambda>(g2, c').
        rbind (lift (cosmetic r g2 (not_care_ls w h))) (\<lambda>g3.
        Some (Inr \<lparr>height = h, width = w, index_ls = [1..h * w - 1], grid = g3\<rparr>))))))"

section \<open>Graphs: walks, simple paths, forests\<close>

fun walk :: "('v \<times> 'v) set \<Rightarrow> 'v list \<Rightarrow> bool" where
  "walk E [] \<longleftrightarrow> False"
| "walk E [v] \<longleftrightarrow> True"
| "walk E (u # v # vs) \<longleftrightarrow> ((u, v) \<in> E \<or> (v, u) \<in> E) \<and> walk E (v # vs)"

definition simple_path :: "('v \<times> 'v) set \<Rightarrow> 'v \<Rightarrow> 'v \<Rightarrow> 'v list \<Rightarrow> bool" where
  "simple_path E a b p \<longleftrightarrow> walk E p \<and> distinct p \<and> hd p = a \<and> last p = b"

definition forest :: "('v \<times> 'v) set \<Rightarrow> bool" where
  "forest E \<longleftrightarrow> (\<forall>a b p q. simple_path E a b p \<longrightarrow> simple_path E a b q \<longrightarrow> p = q)"

definition crosses :: "('v \<times> 'v) set \<Rightarrow> 'v \<Rightarrow> 'v \<Rightarrow> 'v list \<Rightarrow> bool" where
  "crosses E u v p \<longleftrightarrow>
     (\<exists>p1 p2. p = p1 @ p2 \<and> p1 \<noteq> [] \<and> p2 \<noteq> [] \<and> walk E p1 \<and> walk E p2 \<and> last p1 = u \<and> hd p2 = v)"

section \<open>The maze: cells, the room graph, what numpy promises\<close>

definition in_grid :: "int \<Rightarrow> int \<Rightarrow> int \<times> int \<Rightarrow> bool" where
  "in_grid w h p \<longleftrightarrow> 0 \<le> fst p \<and> fst p < w \<and> 0 \<le> snd p \<and> snd p < h"

definition is_room :: "int \<Rightarrow> int \<Rightarrow> int \<times> int \<Rightarrow> bool" where
  \<comment> \<open>both coordinates even\<close>
  "is_room w h p \<longleftrightarrow> in_grid w h p \<and> fst p mod 2 = 0 \<and> snd p mod 2 = 0"

definition is_wall :: "int \<Rightarrow> int \<Rightarrow> int \<times> int \<Rightarrow> bool" where
  \<comment> \<open>a wall candidate: exactly one coordinate odd\<close>
  "is_wall w h p \<longleftrightarrow> in_grid w h p \<and> fst p mod 2 \<noteq> snd p mod 2"

definition is_dot :: "int \<Rightarrow> int \<Rightarrow> int \<times> int \<Rightarrow> bool" where
  \<comment> \<open>a junction dot: both coordinates odd\<close>
  "is_dot w h p \<longleftrightarrow> in_grid w h p \<and> fst p mod 2 = 1 \<and> snd p mod 2 = 1"

definition grid_ok :: "int \<Rightarrow> int \<Rightarrow> grid \<Rightarrow> bool" where
  \<comment> \<open>the array has shape \<open>(w, h)\<close>\<close>
  "grid_ok w h g \<longleftrightarrow> length g = nat w \<and> list_all (\<lambda>row. length row = nat h) g"

definition cell :: "grid \<Rightarrow> int \<times> int \<Rightarrow> int" where
  \<comment> \<open>\<^verbatim>\<open>grid[x][y]\<close> for a coordinate inside the grid\<close>
  "cell g p = g ! nat (fst p) ! nat (snd p)"

definition ends :: "int \<times> int \<Rightarrow> (int \<times> int) \<times> (int \<times> int)" where
  \<comment> \<open>the two room cells a wall candidate separates, as the carving loop computes them\<close>
  "ends p = (if fst p mod 2 = 1 then ((fst p - 1, snd p), (fst p + 1, snd p))
             else ((fst p, snd p - 1), (fst p, snd p + 1)))"

definition open_walls :: "int \<Rightarrow> int \<Rightarrow> grid \<Rightarrow> (int \<times> int) list" where
  \<comment> \<open>the wall candidates marked passable\<close>
  "open_walls w h g = filter (\<lambda>p. cell g p = 0) (wall_ls w h)"

definition maze_edges :: "int \<Rightarrow> int \<Rightarrow> grid \<Rightarrow> ((int \<times> int) \<times> (int \<times> int)) set" where
  \<comment> \<open>the graph on room cells: one edge per passable wall candidate, between the two rooms
      it separates\<close>
  "maze_edges w h g = set (map ends (open_walls w h g))"

definition cid :: "cell_dset \<Rightarrow> int \<times> int \<Rightarrow> int" where
  \<comment> \<open>the disjoint-set element of a registered cell\<close>
  "cid c p = the (index_map c (fst p + snd p * dwidth c))"

definition mcd_inv :: "int \<Rightarrow> int \<Rightarrow> cell_dset \<Rightarrow> bool" where
  "mcd_inv w h c \<longleftrightarrow>
     dwidth c = w \<and>
     (\<forall>i < length (cell_ls w h).
        index_map c (fst (cell_ls w h ! i) + snd (cell_ls w h ! i) * w) = Some (int i)) \<and>
     dset_inv (int (length (cell_ls w h))) (dset c)"

definition carve_inv :: "int \<Rightarrow> int \<Rightarrow> grid \<Rightarrow> cell_dset \<Rightarrow> (int \<times> int) list \<Rightarrow> bool" where
  \<comment> \<open>the invariant of the carving loop; \<open>seen\<close> are the wall candidates visited so far\<close>
  "carve_inv w h g c seen \<longleftrightarrow>
     grid_ok w h g \<and> mcd_inv w h c \<and>
     (\<forall>p. in_grid w h p \<longrightarrow> cell g p = 0 \<or> cell g p = 1) \<and>
     (\<forall>p. is_room w h p \<longrightarrow> cell g p = 0) \<and>
     (\<forall>p. is_dot w h p \<longrightarrow> cell g p = 1) \<and>
     (\<forall>p. is_wall w h p \<longrightarrow> cell g p = 0 \<longrightarrow> p \<in> set seen) \<and>
     (\<forall>p\<in>set seen. is_wall w h p \<and> ends p \<in> component (maze_edges w h g)) \<and>
     (\<forall>a b. is_room w h a \<longrightarrow> is_room w h b \<longrightarrow>
        (same_set (dset c) (cid c a) (cid c b) \<longleftrightarrow> (a, b) \<in> component (maze_edges w h g))) \<and>
     forest (maze_edges w h g) \<and>
     count' (dset c) = int (length (cell_ls w h)) - int (length (open_walls w h g))"

text \<open>
  What numpy documents for the three random calls: \<^verbatim>\<open>shuffle\<close> permutes its argument;
  \<^verbatim>\<open>randint(low, high)\<close> returns an integer from \<open>low\<close> (inclusive) to \<open>high\<close>
  (exclusive); \<^verbatim>\<open>choice(a, size, False)\<close> returns \<open>size\<close> distinct elements of
  \<^verbatim>\<open>arange(a)\<close>.
\<close>

definition rng_ok :: "int \<Rightarrow> int \<Rightarrow> rng \<Rightarrow> bool" where
  "rng_ok w h r \<longleftrightarrow>
     mset (shuffled r) = mset (wall_ls w h) \<and>
     0 \<le> additional_wall r \<and> additional_wall r < int (length (not_care_ls w h)) \<and>
     int (length (chosen r)) = additional_wall r \<and> distinct (chosen r) \<and>
     list_all (\<lambda>i. 0 \<le> i \<and> i < int (length (not_care_ls w h))) (chosen r)"

definition chosen_dots :: "int \<Rightarrow> int \<Rightarrow> rng \<Rightarrow> (int \<times> int) set" where
  \<comment> \<open>the junction dots the cosmetic pass writes to\<close>
  "chosen_dots w h r = (\<lambda>i. not_care_ls w h ! nat i) ` set (chosen r)"

definition only_opens :: "int \<Rightarrow> int \<Rightarrow> grid \<Rightarrow> grid \<Rightarrow> bool" where
  \<comment> \<open>from \<open>g\<close> to \<open>g'\<close> every cell is unchanged or went from wall (1) to passable (0)\<close>
  "only_opens w h g g' \<longleftrightarrow>
     (\<forall>q. in_grid w h q \<longrightarrow> cell g' q = cell g q \<or> (cell g q = 1 \<and> cell g' q = 0))"

section \<open>Roots, path compression and linking\<close>

lemma root_of_is_root: "root_of pm x r \<Longrightarrow> pm r = Some r"
  by (induction rule: root_of.induct) auto

lemma root_of_dom: "root_of pm x r \<Longrightarrow> x \<in> dom pm"
  by (induction rule: root_of.induct) auto

lemma root_of_root_iff: 
  assumes "pm x = Some x" shows "root_of pm x r \<longleftrightarrow> r = x"
proof
  assume "root_of pm x r"
  then show "r = x"
  proof (cases rule: root_of.cases)
    case root_self
    then show ?thesis by simp
  next
    case (root_step y)
    then show ?thesis using assms by simp
  qed
next
  assume "r = x" then show "root_of pm x r" using assms by (simp add: root_self)
qed

lemma root_of_parent_iff:
  assumes "pm x = Some y" "y \<noteq> x" shows "root_of pm x r \<longleftrightarrow> root_of pm y r"
proof
  assume "root_of pm x r"
  then show "root_of pm y r"
  proof (cases rule: root_of.cases)
    case root_self
    then show ?thesis using assms by simp
  next
    case (root_step y')
    then show ?thesis using assms by simp
  qed
next
  assume "root_of pm y r" then show "root_of pm x r" using assms by (rule root_step[rotated 2])
qed

lemma root_of_fun: "root_of pm x r \<Longrightarrow> root_of pm x r' \<Longrightarrow> r = r'"
proof (induction arbitrary: r' rule: root_of.induct)
  case (root_self x)
  then show ?case by (simp add: root_of_root_iff)
next
  case (root_step x y r)
  then show ?case by (simp add: root_of_parent_iff)
qed

lemma find_root_eq: "root_of pm x r \<Longrightarrow> find_root pm x = Some (Inr r)"
proof (induction rule: root_of.induct)
  case (root_self x)
  then show ?case by (subst find_root.simps) simp
next
  case (root_step x y r)
  then show ?case by (subst find_root.simps) simp
qed

lemma anc_root_iff:
  assumes "pm r = Some r" shows "anc pm r x \<longleftrightarrow> x = r"
proof
  assume "anc pm r x"
  then show "x = r"
  proof (cases rule: anc.cases)
    case anc_self
    then show ?thesis by simp
  next
    case (anc_step y)
    then show ?thesis using assms by simp
  qed
next
  assume "x = r" then show "anc pm r x" by (simp add: anc_self)
qed

lemma anc_parent_iff:
  assumes "pm p = Some y" "y \<noteq> p" shows "anc pm p x \<longleftrightarrow> x = p \<or> anc pm y x"
proof
  assume "anc pm p x"
  then show "x = p \<or> anc pm y x"
  proof (cases rule: anc.cases)
    case anc_self
    then show ?thesis by simp
  next
    case (anc_step y')
    then show ?thesis using assms by simp
  qed
next
  assume "x = p \<or> anc pm y x"
  then show "anc pm p x"
  proof
    assume "x = p" then show ?thesis by (simp add: anc_self)
  next
    assume "anc pm y x" with assms show ?thesis by (rule anc_step)
  qed
qed

lemma anc_root_of: "anc pm p x \<Longrightarrow> root_of pm p q \<Longrightarrow> root_of pm x q"
proof (induction rule: anc.induct)
  case (anc_self x)
  then show ?case .
next
  case (anc_step x y z)
  then show ?case by (simp add: root_of_parent_iff)
qed

lemma root_of_anc: "root_of pm x r \<Longrightarrow> anc pm x r"
proof (induction rule: root_of.induct)
  case (root_self x)
  show ?case by (rule anc_self)
next
  case (root_step x y r)
  then show ?case by (simp add: anc_parent_iff)
qed

lemma anc_snoc: "anc pm a b \<Longrightarrow> pm b = Some c \<Longrightarrow> c \<noteq> b \<Longrightarrow> anc pm a c"
proof (induction rule: anc.induct)
  case (anc_self x)
  then show ?case by (simp add: anc_parent_iff anc.anc_self)
next
  case (anc_step x y z)
  then show ?case by (simp add: anc_parent_iff)
qed

lemma no_back_edge:
  "root_of pm y r \<Longrightarrow> anc pm y p \<Longrightarrow> pm p = Some y \<Longrightarrow> y = p"
proof (induction arbitrary: p rule: root_of.induct)
  case (root_self x)
  then show ?case by (simp add: anc_root_iff)
next
  case (root_step y z r)
  show ?case
  proof (rule ccontr)
    assume ne: "y \<noteq> p"
    have "anc pm z p" using root_step.prems(1) root_step.hyps ne
      by (simp add: anc_parent_iff)
    then have "anc pm z y"
      using anc_snoc[of pm z p y] root_step.prems(2) ne by simp
    then have "z = y" using root_step.IH[of y] root_step.hyps by simp
    with root_step.hyps show False by simp
  qed
qed

lemma compressed_root: "pm q = Some q \<Longrightarrow> compressed m pm q q v = m"
  by (simp add: compressed_def fun_eq_iff anc_root_iff)

lemma compressed_step:
  assumes "pm x = Some y" "y \<noteq> x" "\<not> anc pm y x" "x \<noteq> r"
  shows "compressed (m(x \<mapsto> v)) pm y r v = compressed m pm x r v"
  using assms by (auto simp: compressed_def fun_eq_iff anc_parent_iff)

lemma compress_exact_gen:
  "root_of pm p q \<Longrightarrow> (\<And>x. anc pm p x \<Longrightarrow> pm1 x = pm x) \<Longrightarrow>
   compress q pm1 sz1 p = Some (Inr (compressed pm1 pm p q q, compressed sz1 pm p q 2))"
proof (induction arbitrary: pm1 sz1 rule: root_of.induct)
  case (root_self x)
  have "pm1 x = Some x" using root_self by (simp add: anc_self)
  then show ?case using root_self.hyps
    by (subst compress.simps) (simp add: compressed_root)
next
  case (root_step x y r)
  have px: "pm1 x = Some y" using root_step by (simp add: anc_self)
  have nb: "\<not> anc pm y x" using no_back_edge[of pm y r x] root_step.hyps by auto
  have xr: "x \<noteq> r" using root_step.hyps root_of_is_root[of pm y r] by auto
  have agree: "\<And>z. anc pm y z \<Longrightarrow> (pm1(x \<mapsto> r)) z = pm z"
    using nb root_step.prems root_step.hyps by (auto simp: anc_parent_iff)
  have "compress r pm1 sz1 x = compress r (pm1(x \<mapsto> r)) (sz1(x \<mapsto> 2)) y"
    using px root_step.hyps by (subst compress.simps) simp
  also have "\<dots> = Some (Inr (compressed (pm1(x \<mapsto> r)) pm y r r, compressed (sz1(x \<mapsto> 2)) pm y r 2))"
    by (rule root_step.IH) (rule agree)
  finally show ?case
    by (simp add: compressed_step[OF root_step.hyps(1,2) nb xr])
qed

lemma compress_exact:
  "root_of pm p q \<Longrightarrow>
   compress q pm sz p = Some (Inr (compressed pm pm p q q, compressed sz pm p q 2))"
  by (rule compress_exact_gen) simp_all

lemma anc_is_root_eq:
  assumes "root_of pm p q" "anc pm p x" "pm x = Some x" shows "x = q"
proof -
  have "root_of pm x q" using assms(2,1) by (rule anc_root_of)
  then show ?thesis using assms(3) by (simp add: root_of_root_iff)
qed

lemma compressed_root_of:
  assumes pq: "root_of pm p q"
  shows "root_of pm x r \<Longrightarrow> root_of (compressed pm pm p q q) x r"
proof (induction rule: root_of.induct)
  case (root_self x)
  have "compressed pm pm p q q x = Some x"
    using root_self anc_is_root_eq[OF pq, of x] by (auto simp: compressed_def)
  then show ?case by (rule root_of.root_self)
next
  case (root_step x y r)
  show ?case
  proof (cases "anc pm p x \<and> x \<noteq> q")
    case True
    then have "root_of pm x q" using anc_root_of[OF _ pq, of x] by simp
    moreover have "root_of pm x r" using root_step.hyps by (simp add: root_of_parent_iff)
    ultimately have rq: "r = q" using root_of_fun[of pm x r q] by simp
    have cx: "compressed pm pm p q q x = Some q" using True by (simp add: compressed_def)
    have "pm q = Some q" using pq by (rule root_of_is_root)
    then have "compressed pm pm p q q q = Some q" by (simp add: compressed_def)
    then have "root_of (compressed pm pm p q q) q q" by (rule root_of.root_self)
    with cx True show ?thesis unfolding rq by (simp add: root_of_parent_iff)
  next
    case False
    then have "compressed pm pm p q q x = Some y"
      using root_step.hyps by (auto simp: compressed_def)
    then show ?thesis using root_step.hyps root_step.IH by (simp add: root_of_parent_iff)
  qed
qed

lemma compressed_is_root_iff:
  assumes pq: "root_of pm p q"
  shows "compressed pm pm p q q r = Some r \<longleftrightarrow> pm r = Some r"
  using anc_is_root_eq[OF pq, of r] by (auto simp: compressed_def)

lemma dom_compressed:
  assumes pq: "root_of pm p q"
  shows "dom (compressed pm pm p q q) = dom pm"
proof -
  have "\<And>x. anc pm p x \<Longrightarrow> x \<in> dom pm"
    using anc_root_of[OF _ pq] root_of_dom by blast
  then show ?thesis by (auto simp: compressed_def dom_def)
qed

lemma dom_compressed_sz:
  assumes pq: "root_of pm p q" and d: "dom sz = dom pm"
  shows "dom (compressed sz pm p q v) = dom pm"
proof -
  have "\<And>x. anc pm p x \<Longrightarrow> x \<in> dom pm"
    using anc_root_of[OF _ pq] root_of_dom by blast
  then show ?thesis using d by (auto simp: compressed_def dom_def)
qed

lemma compressed_sz_root:
  assumes pq: "root_of pm p q" and r: "pm r = Some r"
  shows "compressed sz pm p q v r = sz r"
  using anc_is_root_eq[OF pq _ r] by (auto simp: compressed_def)

lemma link_root_of:
  assumes a: "pm a = Some a" and b: "pm b = Some b" and ab: "a \<noteq> b"
  shows "root_of pm x r \<Longrightarrow> root_of (pm(a \<mapsto> b)) x (if r = a then b else r)"
proof (induction rule: root_of.induct)
  case (root_self x)
  show ?case
  proof (cases "x = a")
    case True
    have rb: "root_of (pm(a \<mapsto> b)) b b" using b ab by (simp add: root_of.root_self)
    have pa: "(pm(a \<mapsto> b)) a = Some b" by simp
    have "root_of (pm(a \<mapsto> b)) a b"
      by (rule root_of.root_step[OF pa ab[symmetric] rb])
    then show ?thesis by (simp only: True simp_thms if_True)
  next
    case False
    have "(pm(a \<mapsto> b)) x = Some x" using False root_self by simp
    then have "root_of (pm(a \<mapsto> b)) x x" by (rule root_of.root_self)
    then show ?thesis by (simp only: False if_False)
  qed
next
  case (root_step x y r)
  have "x \<noteq> a" using root_step.hyps a by auto
  then have "(pm(a \<mapsto> b)) x = Some y" using root_step.hyps by simp
  then show ?case using root_step.hyps(2) root_step.IH
    by (rule root_of.root_step)
qed

lemma rbind_Inr [simp]: "rbind (Some (Inr v)) f = f v"
  by (simp add: rbind_def)

lemma wqu_find_eq:
  assumes "root_of (parent_map s) p q"
  shows "wqu_find s p = Some (Inr (compress_state s p q, q))"
  using assms by (simp add: wqu_find_def find_root_eq compress_exact compress_state_def)

lemma inv_has_root: "dset_inv n s \<Longrightarrow> 0 \<le> x \<Longrightarrow> x < n \<Longrightarrow> \<exists>r. root_of (parent_map s) x r"
  by (simp add: dset_inv_def)

lemma inv_root_of_dom:
  assumes "dset_inv n s" "root_of (parent_map s) x r"
  shows "0 \<le> x \<and> x < n \<and> 0 \<le> r \<and> r < n"
proof -
  have "x \<in> dom (parent_map s)" using assms(2) by (rule root_of_dom)
  moreover have "r \<in> dom (parent_map s)" using root_of_is_root[OF assms(2)] by auto
  ultimately show ?thesis using assms(1) by (simp add: dset_inv_def)
qed

lemma finite_roots: "dset_inv n s \<Longrightarrow> finite (roots s)"
proof -
  assume i: "dset_inv n s"
  have "roots s \<subseteq> dom (parent_map s)" by (auto simp: roots_def)
  then have "roots s \<subseteq> {0..<n}" using i by (simp add: dset_inv_def)
  then show ?thesis by (rule finite_subset) simp
qed

lemma finite_set_of: "dset_inv n s \<Longrightarrow> finite (set_of s r)"
proof -
  assume i: "dset_inv n s"
  have "set_of s r \<subseteq> {0..<n}" using inv_root_of_dom[OF i] by (auto simp: set_of_def)
  then show ?thesis by (rule finite_subset) simp
qed

lemma compress_state_root_of:
  assumes i: "dset_inv n s" and pq: "root_of (parent_map s) p q"
  shows "root_of (parent_map (compress_state s p q)) x r \<longleftrightarrow> root_of (parent_map s) x r"
proof
  assume "root_of (parent_map s) x r"
  then show "root_of (parent_map (compress_state s p q)) x r"
    using compressed_root_of[OF pq] by (simp add: compress_state_def)
next
  assume a: "root_of (parent_map (compress_state s p q)) x r"
  then have "x \<in> dom (parent_map (compress_state s p q))" by (rule root_of_dom)
  then have "x \<in> dom (parent_map s)" using dom_compressed[OF pq] by (simp add: compress_state_def)
  then have "0 \<le> x \<and> x < n" using i by (simp add: dset_inv_def)
  then obtain r0 where r0: "root_of (parent_map s) x r0"
    using inv_has_root[OF i, of x] by blast
  then have "root_of (parent_map (compress_state s p q)) x r0"
    using compressed_root_of[OF pq] by (simp add: compress_state_def)
  with a have "r = r0" by (rule root_of_fun)
  with r0 show "root_of (parent_map s) x r" by simp
qed

lemma compress_state_roots:
  assumes pq: "root_of (parent_map s) p q"
  shows "roots (compress_state s p q) = roots s"
  using compressed_is_root_iff[OF pq] by (simp add: roots_def compress_state_def)

lemma compress_state_inv:
  assumes i: "dset_inv n s" and pq: "root_of (parent_map s) p q"
  shows "dset_inv n (compress_state s p q)"
proof -
  let ?s = "compress_state s p q"
  have d1: "dom (parent_map ?s) = {0..<n}"
    using i dom_compressed[OF pq] by (simp add: compress_state_def dset_inv_def)
  have d2: "dom (sz_map ?s) = {0..<n}"
    using i dom_compressed_sz[OF pq, of "sz_map s"] by (simp add: compress_state_def dset_inv_def)
  have r: "\<forall>x\<in>{0..<n}. \<exists>r. root_of (parent_map ?s) x r"
    using i by (simp add: compress_state_root_of[OF i pq] dset_inv_def)
  have c: "count' ?s = int (card (roots ?s))"
    using i by (simp add: compress_state_roots[OF pq] dset_inv_def) (simp add: compress_state_def)
  have so: "\<And>r. set_of ?s r = set_of s r"
    by (simp add: set_of_def compress_state_root_of[OF i pq])
  have sz: "\<forall>r\<in>roots ?s. sz_map ?s r = Some (int (card (set_of ?s r)))"
  proof
    fix r assume "r \<in> roots ?s"
    then have rr: "r \<in> roots s" by (simp add: compress_state_roots[OF pq])
    then have "parent_map s r = Some r" by (simp add: roots_def)
    then have "sz_map ?s r = sz_map s r"
      using compressed_sz_root[OF pq] by (simp add: compress_state_def)
    then show "sz_map ?s r = Some (int (card (set_of ?s r)))"
      using i rr by (simp add: so dset_inv_def)
  qed
  show ?thesis unfolding dset_inv_def using d1 d2 r c sz by blast
qed

lemma link_root_of_iff:
  assumes i: "dset_inv n s" and a: "a \<in> roots s" and b: "b \<in> roots s" and ab: "a \<noteq> b"
  shows "root_of (parent_map (link_state s a b)) x r \<longleftrightarrow>
         (\<exists>r0. root_of (parent_map s) x r0 \<and> r = (if r0 = a then b else r0))"
proof
  assume "\<exists>r0. root_of (parent_map s) x r0 \<and> r = (if r0 = a then b else r0)"
  then obtain r0 where r0: "root_of (parent_map s) x r0" and r: "r = (if r0 = a then b else r0)"
    by blast
  have "root_of ((parent_map s)(a \<mapsto> b)) x (if r0 = a then b else r0)"
    using a b ab r0 by (intro link_root_of) (simp_all add: roots_def)
  then show "root_of (parent_map (link_state s a b)) x r"
    unfolding r by (simp add: link_state_def)
next
  assume l: "root_of (parent_map (link_state s a b)) x r"
  then have "x \<in> dom (parent_map (link_state s a b))" by (rule root_of_dom)
  moreover have "a \<in> dom (parent_map s)" using a by (auto simp: roots_def)
  ultimately have "x \<in> dom (parent_map s)" by (auto simp: link_state_def)
  then have "0 \<le> x \<and> x < n" using i by (simp add: dset_inv_def)
  then obtain r0 where r0: "root_of (parent_map s) x r0"
    using inv_has_root[OF i, of x] by blast
  have "root_of ((parent_map s)(a \<mapsto> b)) x (if r0 = a then b else r0)"
    using a b ab r0 by (intro link_root_of) (simp_all add: roots_def)
  then have "root_of (parent_map (link_state s a b)) x (if r0 = a then b else r0)"
    by (simp add: link_state_def)
  with l have "r = (if r0 = a then b else r0)" by (rule root_of_fun)
  with r0 show "\<exists>r0. root_of (parent_map s) x r0 \<and> r = (if r0 = a then b else r0)" by blast
qed

lemma link_roots:
  assumes ab: "a \<noteq> b"
  shows "roots (link_state s a b) = roots s - {a}"
  using ab by (auto simp: roots_def link_state_def)

lemma root_of_root_in_roots: "root_of (parent_map s) x r \<Longrightarrow> r \<in> roots s"
  by (simp add: roots_def root_of_is_root)

lemma link_set_of:
  assumes i: "dset_inv n s" and a: "a \<in> roots s" and b: "b \<in> roots s" and ab: "a \<noteq> b"
  shows "set_of (link_state s a b) r =
         (if r = b then set_of s a \<union> set_of s b else if r = a then {} else set_of s r)"
  unfolding set_of_def link_root_of_iff[OF i a b ab] using ab by auto

lemma set_of_disjoint: "r \<noteq> r' \<Longrightarrow> set_of s r \<inter> set_of s r' = {}"
  using root_of_fun by (auto simp: set_of_def)

lemma link_inv:
  assumes i: "dset_inv n s" and a: "a \<in> roots s" and b: "b \<in> roots s" and ab: "a \<noteq> b"
  shows "dset_inv n (link_state s a b)"
proof -
  let ?s = "link_state s a b"
  have ad: "0 \<le> a \<and> a < n" and bd: "0 \<le> b \<and> b < n"
    using a b i by (auto simp: roots_def dset_inv_def dom_def)
  have d1: "dom (parent_map ?s) = {0..<n}"
    using i ad by (auto simp: link_state_def dset_inv_def)
  have d2: "dom (sz_map ?s) = {0..<n}"
    using i bd by (auto simp: link_state_def dset_inv_def)
  have r: "\<forall>x\<in>{0..<n}. \<exists>r. root_of (parent_map ?s) x r"
  proof
    fix x assume "x \<in> {0..<n}"
    then obtain r0 where "root_of (parent_map s) x r0" using inv_has_root[OF i, of x] by auto
    then show "\<exists>r. root_of (parent_map ?s) x r"
      unfolding link_root_of_iff[OF i a b ab] by blast
  qed
  have "card (roots s - {a}) = card (roots s) - 1" using a finite_roots[OF i] by simp
  moreover have "card (roots s) \<ge> 1" using a finite_roots[OF i]
    by (metis One_nat_def Suc_leI card_gt_0_iff empty_iff)
  ultimately have "int (card (roots ?s)) = int (card (roots s)) - 1"
    by (simp add: link_roots[OF ab])
  moreover have "count' s = int (card (roots s))" using i by (simp add: dset_inv_def)
  ultimately have c: "count' ?s = int (card (roots ?s))"
    by (simp add: link_state_def)
  have sa: "sz_map s a = Some (int (card (set_of s a)))"
    and sb: "sz_map s b = Some (int (card (set_of s b)))"
    using i a b by (simp_all add: dset_inv_def)
  have cu: "card (set_of s a \<union> set_of s b) = card (set_of s a) + card (set_of s b)"
    using finite_set_of[OF i] set_of_disjoint[OF ab] by (simp add: card_Un_disjoint)
  have sz: "\<forall>r\<in>roots ?s. sz_map ?s r = Some (int (card (set_of ?s r)))"
  proof
    fix r assume "r \<in> roots ?s"
    then have rr: "r \<in> roots s" "r \<noteq> a" by (simp_all add: link_roots[OF ab])
    show "sz_map ?s r = Some (int (card (set_of ?s r)))"
    proof (cases "r = b")
      case True
      then show ?thesis using sa sb cu
        by (simp add: link_set_of[OF i a b ab]) (simp add: link_state_def)
    next
      case False
      then have "sz_map ?s r = sz_map s r" by (simp add: link_state_def)
      then show ?thesis using False rr i
        by (simp add: link_set_of[OF i a b ab] dset_inv_def)
    qed
  qed
  show ?thesis unfolding dset_inv_def using d1 d2 r c sz by blast
qed

lemma compress_state_same_set:
  assumes i: "dset_inv n s" and pq: "root_of (parent_map s) p q"
  shows "same_set (compress_state s p q) x y \<longleftrightarrow> same_set s x y"
  by (simp add: same_set_def compress_state_root_of[OF i pq])

lemma compress_state_count [simp]: "count' (compress_state s p q) = count' s"
  by (simp add: compress_state_def)

lemma link_state_count [simp]: "count' (link_state s a b) = count' s - 1"
  by (simp add: link_state_def)

lemma link_same_set:
  assumes i: "dset_inv n s" and a: "a \<in> roots s" and b: "b \<in> roots s" and ab: "a \<noteq> b"
  shows "same_set (link_state s a b) x y \<longleftrightarrow>
         same_set s x y \<or> (root_of (parent_map s) x a \<and> root_of (parent_map s) y b)
                        \<or> (root_of (parent_map s) x b \<and> root_of (parent_map s) y a)"
proof -
  have f: "\<And>z r r'. root_of (parent_map s) z r \<Longrightarrow> root_of (parent_map s) z r' \<longleftrightarrow> r' = r"
    using root_of_fun by blast
  show ?thesis
  proof (cases "\<exists>rx ry. root_of (parent_map s) x rx \<and> root_of (parent_map s) y ry")
    case True
    then obtain rx ry where rx: "root_of (parent_map s) x rx" and ry: "root_of (parent_map s) y ry"
      by blast
    show ?thesis
      unfolding same_set_def link_root_of_iff[OF i a b ab] f[OF rx] f[OF ry]
      using ab by auto
  next
    case False
    then show ?thesis
      unfolding same_set_def link_root_of_iff[OF i a b ab] by blast
  qed
qed

lemma lookup_Some [simp]: "m k = Some v \<Longrightarrow> lookup m k = Some (Inr v)"
  by (simp add: lookup_def)

lemma wqu_union_eq:
  assumes i: "dset_inv n s" and rp: "root_of (parent_map s) p rp" and rq: "root_of (parent_map s) q rq"
  shows "wqu_union s p q = Some (Inr
          (let s2 = compress_state (compress_state s p rp) q rq in
           if rq = rp then s2
           else if the (sz_map s2 rp) < the (sz_map s2 rq) then link_state s2 rp rq
           else link_state s2 rq rp))"
proof -
  let ?s1 = "compress_state s p rp"
  let ?s2 = "compress_state ?s1 q rq"
  have i1: "dset_inv n ?s1" using i rp by (rule compress_state_inv)
  have rq1: "root_of (parent_map ?s1) q rq" using rq by (simp add: compress_state_root_of[OF i rp])
  have i2: "dset_inv n ?s2" using i1 rq1 by (rule compress_state_inv)
  have f1: "wqu_find s p = Some (Inr (?s1, rp))" using rp by (rule wqu_find_eq)
  have f2: "wqu_find ?s1 q = Some (Inr (?s2, rq))" using rq1 by (rule wqu_find_eq)
  have "rp \<in> roots s" "rq \<in> roots s" using rp rq by (simp_all add: root_of_root_in_roots)
  then have r2: "rp \<in> roots ?s2" "rq \<in> roots ?s2"
    by (simp_all add: compress_state_roots[OF rq1] compress_state_roots[OF rp])
  then obtain a b where sz: "sz_map ?s2 rp = Some a" "sz_map ?s2 rq = Some b"
    using i2 by (simp add: dset_inv_def)
  show ?thesis
    unfolding wqu_union_def f1 rbind_Inr prod.case f2 Let_def
    using sz by (simp add: link_state_def add.commute)
qed

lemma wqu_is_connected_eq:
  assumes i: "dset_inv n s" and rp: "root_of (parent_map s) p rp" and rq: "root_of (parent_map s) q rq"
  shows "wqu_is_connected s p q =
         Some (Inr (compress_state (compress_state s p rp) q rq, rp = rq))"
proof -
  let ?s1 = "compress_state s p rp"
  have rq1: "root_of (parent_map ?s1) q rq" using rq by (simp add: compress_state_root_of[OF i rp])
  have f1: "wqu_find s p = Some (Inr (?s1, rp))" using rp by (rule wqu_find_eq)
  have f2: "wqu_find ?s1 q = Some (Inr (compress_state ?s1 q rq, rq))" using rq1 by (rule wqu_find_eq)
  show ?thesis unfolding wqu_is_connected_def f1 rbind_Inr prod.case f2 by simp
qed

lemma same_set_roots:
  assumes "root_of (parent_map s) p rp" "root_of (parent_map s) q rq"
  shows "same_set s p q \<longleftrightarrow> rp = rq"
  using assms root_of_fun unfolding same_set_def by blast

lemma find_ok:
  assumes i: "dset_inv n s" and p: "0 \<le> p" "p < n"
  shows "\<exists>s' r. wqu_find s p = Some (Inr (s', r)) \<and> root_of (parent_map s) p r \<and>
           s' = compress_state s p r \<and> dset_inv n s' \<and> count' s' = count' s \<and>
           roots s' = roots s \<and>
           (\<forall>x y. root_of (parent_map s') x y \<longleftrightarrow> root_of (parent_map s) x y)"
proof -
  obtain r where r: "root_of (parent_map s) p r" using inv_has_root[OF i p] by blast
  show ?thesis
    using wqu_find_eq[OF r] r compress_state_inv[OF i r] compress_state_roots[OF r]
      compress_state_root_of[OF i r] by simp
qed

lemma is_connected_ok:
  assumes i: "dset_inv n s" and p: "0 \<le> p" "p < n" and q: "0 \<le> q" "q < n"
  shows "\<exists>s'. wqu_is_connected s p q = Some (Inr (s', same_set s p q)) \<and>
           dset_inv n s' \<and> count' s' = count' s \<and> roots s' = roots s \<and>
           (\<forall>x y. root_of (parent_map s') x y \<longleftrightarrow> root_of (parent_map s) x y)"
proof -
  obtain rp where rp: "root_of (parent_map s) p rp" using inv_has_root[OF i p] by blast
  obtain rq where rq: "root_of (parent_map s) q rq" using inv_has_root[OF i q] by blast
  let ?s1 = "compress_state s p rp"
  have i1: "dset_inv n ?s1" using i rp by (rule compress_state_inv)
  have rq1: "root_of (parent_map ?s1) q rq" using rq by (simp add: compress_state_root_of[OF i rp])
  show ?thesis
    unfolding wqu_is_connected_eq[OF i rp rq] same_set_roots[OF rp rq]
    using compress_state_inv[OF i1 rq1]
    by (simp add: compress_state_roots[OF rq1] compress_state_roots[OF rp]
        compress_state_root_of[OF i1 rq1] compress_state_root_of[OF i rp])
qed

lemma same_set_left:
  assumes "root_of (parent_map s) p rp"
  shows "same_set s x p \<longleftrightarrow> root_of (parent_map s) x rp"
  using assms root_of_fun[of "parent_map s" p] unfolding same_set_def by blast

lemma same_set_right:
  assumes "root_of (parent_map s) p rp"
  shows "same_set s p x \<longleftrightarrow> root_of (parent_map s) x rp"
  using assms root_of_fun[of "parent_map s" p] unfolding same_set_def by blast

lemma union_ok:
  assumes i: "dset_inv n s" and p: "0 \<le> p" "p < n" and q: "0 \<le> q" "q < n"
  shows "\<exists>s'. wqu_union s p q = Some (Inr s') \<and> dset_inv n s' \<and>
           count' s' = (if same_set s p q then count' s else count' s - 1) \<and>
           (\<forall>x y. same_set s' x y \<longleftrightarrow>
              same_set s x y \<or> (same_set s x p \<and> same_set s q y) \<or> (same_set s x q \<and> same_set s p y))"
proof -
  obtain rp where rp: "root_of (parent_map s) p rp" using inv_has_root[OF i p] by blast
  obtain rq where rq: "root_of (parent_map s) q rq" using inv_has_root[OF i q] by blast
  let ?s1 = "compress_state s p rp"
  let ?s2 = "compress_state ?s1 q rq"
  define R where "R = (if rq = rp then ?s2
     else if the (sz_map ?s2 rp) < the (sz_map ?s2 rq) then link_state ?s2 rp rq
     else link_state ?s2 rq rp)"
  have u: "wqu_union s p q = Some (Inr R)"
    unfolding wqu_union_eq[OF i rp rq] R_def Let_def by (rule refl)
  have i1: "dset_inv n ?s1" using i rp by (rule compress_state_inv)
  have rq1: "root_of (parent_map ?s1) q rq" using rq by (simp add: compress_state_root_of[OF i rp])
  have i2: "dset_inv n ?s2" using i1 rq1 by (rule compress_state_inv)
  have ro: "\<And>x y. root_of (parent_map ?s2) x y \<longleftrightarrow> root_of (parent_map s) x y"
    by (simp add: compress_state_root_of[OF i1 rq1] compress_state_root_of[OF i rp])
  have ss: "\<And>x y. same_set ?s2 x y \<longleftrightarrow> same_set s x y"
    by (simp add: same_set_def ro)
  have "rp \<in> roots s" "rq \<in> roots s" using rp rq by (simp_all add: root_of_root_in_roots)
  then have r2: "rp \<in> roots ?s2" "rq \<in> roots ?s2"
    by (simp_all add: compress_state_roots[OF rq1] compress_state_roots[OF rp])
  note sl = same_set_left[OF rp] same_set_left[OF rq]
  note sr = same_set_right[OF rp] same_set_right[OF rq]
  have pq: "same_set s p q \<longleftrightarrow> rp = rq" using rp rq by (rule same_set_roots)
  have c2: "count' ?s2 = count' s" by simp
  have l1: "rp \<noteq> rq \<Longrightarrow> dset_inv n (link_state ?s2 rp rq)" using i2 r2 by (rule link_inv)
  have l2: "rp \<noteq> rq \<Longrightarrow> dset_inv n (link_state ?s2 rq rp)" using i2 r2(2,1) by (rule link_inv) simp
  have inv: "dset_inv n R" unfolding R_def using i2 l1 l2 by (cases "rq = rp") auto
  have cnt: "count' R = (if same_set s p q then count' s else count' s - 1)"
    unfolding R_def pq by auto
  have rel: "same_set R x y \<longleftrightarrow>
       same_set s x y \<or> (same_set s x p \<and> same_set s q y) \<or> (same_set s x q \<and> same_set s p y)"
    for x y
  proof (cases "rq = rp")
    case True
    have t: "same_set s x y" if "root_of (parent_map s) x rp" "root_of (parent_map s) y rp"
      using that unfolding same_set_def by blast
    have "R = ?s2" unfolding R_def using True by simp
    then have "same_set R x y \<longleftrightarrow> same_set s x y" by (simp add: ss)
    then show ?thesis unfolding sl sr True using t by blast
  next
    case False
    then have ne: "rp \<noteq> rq" by simp
    show ?thesis
    proof (cases "the (sz_map ?s2 rp) < the (sz_map ?s2 rq)")
      case True
      have "R = link_state ?s2 rp rq" unfolding R_def using False True by simp
      then have "same_set R x y \<longleftrightarrow> same_set s x y \<or>
          (root_of (parent_map s) x rp \<and> root_of (parent_map s) y rq) \<or>
          (root_of (parent_map s) x rq \<and> root_of (parent_map s) y rp)"
        by (simp add: link_same_set[OF i2 r2 ne] ro ss)
      then show ?thesis unfolding sl sr by blast
    next
      case nlt: False
      have "R = link_state ?s2 rq rp" unfolding R_def using False nlt by simp
      then have "same_set R x y \<longleftrightarrow> same_set s x y \<or>
          (root_of (parent_map s) x rq \<and> root_of (parent_map s) y rp) \<or>
          (root_of (parent_map s) x rp \<and> root_of (parent_map s) y rq)"
        by (simp add: link_same_set[OF i2 r2(2,1) False] ro ss)
      then show ?thesis unfolding sl sr by blast
    qed
  qed
  show ?thesis using u inv cnt rel by blast
qed

lemma init_fold:
  "fold (\<lambda>i s. s\<lparr>parent_map := (parent_map s)(i \<mapsto> i), sz_map := (sz_map s)(i \<mapsto> 1)\<rparr>) xs s0
   = s0\<lparr>parent_map := (\<lambda>i. if i \<in> set xs then Some i else parent_map s0 i),
         sz_map := (\<lambda>i. if i \<in> set xs then Some 1 else sz_map s0 i)\<rparr>"
proof (induction xs arbitrary: s0)
  case Nil
  show ?case by simp
next
  case (Cons a xs)
  show ?case unfolding fold_simps Cons.IH by (auto simp: fun_eq_iff)
qed

lemma wqu_init_eq: "wqu_init n = Inr (init_state n)"
  unfolding wqu_init_def init_fold init_state_def by (auto simp: fun_eq_iff)

lemma init_root_of: "root_of (parent_map (init_state n)) x r \<longleftrightarrow> 0 \<le> x \<and> x < n \<and> r = x"
proof (cases "0 \<le> x \<and> x < n")
  case True
  then have "parent_map (init_state n) x = Some x" by (simp add: init_state_def)
  then show ?thesis using True by (simp add: root_of_root_iff)
next
  case False
  then have "x \<notin> dom (parent_map (init_state n))" by (auto simp: init_state_def)
  then have "\<not> root_of (parent_map (init_state n)) x r" using root_of_dom by blast
  then show ?thesis using False by blast
qed

lemma init_roots: "roots (init_state n) = {0..<n}"
  by (auto simp: roots_def init_state_def)

lemma init_set_of: "0 \<le> r \<Longrightarrow> r < n \<Longrightarrow> set_of (init_state n) r = {r}"
  by (auto simp: set_of_def init_root_of)

lemma init_inv: "0 \<le> n \<Longrightarrow> dset_inv n (init_state n)"
  unfolding dset_inv_def init_roots
  by (auto simp: init_root_of init_set_of) (auto simp: init_state_def split: if_splits)

lemma component_empty: "component {} = Id"
  by (simp add: component_def)

lemma init_agrees: "agrees n (init_state n) {}"
  unfolding agrees_def same_set_def init_root_of component_empty by auto

lemma component_insert:
  "(x, y) \<in> component (insert (p, q) E) \<longleftrightarrow>
     (x, y) \<in> component E \<or> ((x, p) \<in> component E \<and> (q, y) \<in> component E)
       \<or> ((x, q) \<in> component E \<and> (p, y) \<in> component E)"
proof -
  let ?R = "E \<union> E\<inverse>"
  have e: "insert (p, q) E \<union> (insert (p, q) E)\<inverse> = insert (p, q) (insert (q, p) ?R)" by auto
  have t: "\<And>a b c. (a, b) \<in> ?R\<^sup>* \<Longrightarrow> (b, c) \<in> ?R\<^sup>* \<Longrightarrow> (a, c) \<in> ?R\<^sup>*" by (rule rtrancl_trans)
  show ?thesis unfolding component_def e rtrancl_insert[of p q] rtrancl_insert[of q p]
    using t by blast
qed

lemma component_refl: "(x, x) \<in> component E"
  by (simp add: component_def)

lemma component_sym: "(x, y) \<in> component E \<Longrightarrow> (y, x) \<in> component E"
proof -
  assume a: "(x, y) \<in> component E"
  have "sym (E \<union> E\<inverse>)" by (rule sym_Un_converse)
  then have "sym ((E \<union> E\<inverse>)\<^sup>*)" by (rule sym_rtrancl)
  then show ?thesis using a unfolding component_def by (rule symD)
qed

lemma component_trans: "(x, y) \<in> component E \<Longrightarrow> (y, z) \<in> component E \<Longrightarrow> (x, z) \<in> component E"
  unfolding component_def by (rule rtrancl_trans)

lemma same_set_cong:
  assumes "\<forall>x y. root_of (parent_map s') x y \<longleftrightarrow> root_of (parent_map s) x y"
  shows "same_set s' x y \<longleftrightarrow> same_set s x y"
  using assms by (simp add: same_set_def)

lemma agrees_cong:
  assumes "\<forall>x y. root_of (parent_map s') x y \<longleftrightarrow> root_of (parent_map s) x y" "agrees n s E"
  shows "agrees n s' E"
  using assms(2) unfolding agrees_def same_set_cong[OF assms(1)] .

lemma agrees_union:
  assumes a: "agrees n s E" and p: "0 \<le> p" "p < n" and q: "0 \<le> q" "q < n"
    and u: "\<forall>x y. same_set s' x y \<longleftrightarrow>
              same_set s x y \<or> (same_set s x p \<and> same_set s q y) \<or> (same_set s x q \<and> same_set s p y)"
  shows "agrees n s' (insert (p, q) E)"
proof -
  have ss: "\<And>x y. same_set s x y \<longleftrightarrow> 0 \<le> x \<and> x < n \<and> 0 \<le> y \<and> y < n \<and> (x, y) \<in> component E"
    using a by (simp add: agrees_def)
  show ?thesis
    unfolding agrees_def
  proof (intro allI)
    fix x y
    show "same_set s' x y \<longleftrightarrow>
       0 \<le> x \<and> x < n \<and> 0 \<le> y \<and> y < n \<and> (x, y) \<in> component (insert (p, q) E)"
      using u p q unfolding component_insert ss by blast
  qed
qed

lemma exec_op_ok:
  assumes i: "dset_inv n s" and a: "agrees n s E" and ok: "op_ok n x"
  shows "\<exists>s'. exec_op s x = Some (Inr s') \<and> dset_inv n s' \<and>
           agrees n s' (E \<union> set (union_edges [x])) \<and>
           count' s' \<le> count' s"
proof (cases x)
  case (Union p q)
  then have p: "0 \<le> p" "p < n" and q: "0 \<le> q" "q < n" using ok by simp_all
  obtain s' where s': "wqu_union s p q = Some (Inr s')" "dset_inv n s'"
     "count' s' = (if same_set s p q then count' s else count' s - 1)"
     "\<forall>x y. same_set s' x y \<longleftrightarrow>
              same_set s x y \<or> (same_set s x p \<and> same_set s q y) \<or> (same_set s x q \<and> same_set s p y)"
    using union_ok[OF i p q] by blast
  have "agrees n s' (insert (p, q) E)" using a p q s'(4) by (rule agrees_union)
  then show ?thesis using s'(1,2,3) Union by simp
next
  case (Find p)
  then have p: "0 \<le> p" "p < n" using ok by simp_all
  obtain s' r where s': "wqu_find s p = Some (Inr (s', r))" "dset_inv n s'" "count' s' = count' s"
     "\<forall>x y. root_of (parent_map s') x y \<longleftrightarrow> root_of (parent_map s) x y"
    using find_ok[OF i p] by blast
  have "agrees n s' E" using s'(4) a by (rule agrees_cong)
  then show ?thesis using s'(1,2,3) Find by simp
next
  case (IsConnected p q)
  then have p: "0 \<le> p" "p < n" and q: "0 \<le> q" "q < n" using ok by simp_all
  obtain s' where s': "wqu_is_connected s p q = Some (Inr (s', same_set s p q))" "dset_inv n s'"
     "count' s' = count' s"
     "\<forall>x y. root_of (parent_map s') x y \<longleftrightarrow> root_of (parent_map s) x y"
    using is_connected_ok[OF i p q] by blast
  have "agrees n s' E" using s'(4) a by (rule agrees_cong)
  then show ?thesis using s'(1,2,3) IsConnected by simp
next
  case Count
  then show ?thesis using i a by simp
qed

lemma union_edges_Cons: "set (union_edges (x # xs)) = set (union_edges [x]) \<union> set (union_edges xs)"
  by (cases x) simp_all

lemma exec_ops_ok:
  assumes "dset_inv n s" "agrees n s E" "list_all (op_ok n) ops"
  shows "\<exists>s'. exec_ops s ops = Some (Inr s') \<and> dset_inv n s' \<and>
           agrees n s' (E \<union> set (union_edges ops)) \<and> count' s' \<le> count' s"
  using assms
proof (induction ops arbitrary: s E)
  case Nil
  then show ?case by simp
next
  case (Cons x xs)
  from Cons.prems obtain s1 where s1: "exec_op s x = Some (Inr s1)" "dset_inv n s1"
      "agrees n s1 (E \<union> set (union_edges [x]))" "count' s1 \<le> count' s"
    using exec_op_ok[of n s E x] by auto
  from Cons.prems have "list_all (op_ok n) xs" by simp
  from Cons.IH[OF s1(2,3) this] obtain s' where s': "exec_ops s1 xs = Some (Inr s')" "dset_inv n s'"
      "agrees n s' (E \<union> set (union_edges [x]) \<union> set (union_edges xs))" "count' s' \<le> count' s1"
    by blast
  have "E \<union> set (union_edges [x]) \<union> set (union_edges xs) = E \<union> set (union_edges (x # xs))"
    unfolding union_edges_Cons[of x xs] by auto
  then show ?case using s1(1,4) s' by auto
qed

lemma run_ok:
  assumes "0 \<le> n" "list_all (op_ok n) ops"
  shows "\<exists>s. run n ops = Some (Inr s) \<and> dset_inv n s \<and> agrees n s (set (union_edges ops))
           \<and> count' s \<le> n"
proof -
  have "count' (init_state n) = n" by (simp add: init_state_def)
  then show ?thesis
    using exec_ops_ok[OF init_inv[OF assms(1)] init_agrees assms(2)]
    by (auto simp: run_def wqu_init_eq)
qed

section \<open>Connected components, simple paths and forests\<close>

lemma walk_nonempty: "walk E p \<Longrightarrow> p \<noteq> []"
  by (cases p) simp_all

lemma walk_Cons_iff:
  "p \<noteq> [] \<Longrightarrow> walk E (x # p) \<longleftrightarrow> ((x, hd p) \<in> E \<or> (hd p, x) \<in> E) \<and> walk E p"
  by (cases p) simp_all

lemma component_edge: "(x, y) \<in> E \<or> (y, x) \<in> E \<Longrightarrow> (x, y) \<in> component E"
  unfolding component_def by auto

lemma component_mono: "E \<subseteq> E' \<Longrightarrow> (x, y) \<in> component E \<Longrightarrow> (x, y) \<in> component E'"
proof -
  assume "E \<subseteq> E'"
  then have "E \<union> E\<inverse> \<subseteq> E' \<union> E'\<inverse>" by auto
  then have "(E \<union> E\<inverse>)\<^sup>* \<subseteq> (E' \<union> E'\<inverse>)\<^sup>*" by (rule rtrancl_mono)
  then show "(x, y) \<in> component E \<Longrightarrow> (x, y) \<in> component E'"
    unfolding component_def by auto
qed

lemma walk_component: "walk E p \<Longrightarrow> x \<in> set p \<Longrightarrow> (hd p, x) \<in> component E"
proof (induction E p rule: walk.induct)
  case (1 E)
  then show ?case by simp
next
  case (2 E v)
  then show ?case by (simp add: component_refl)
next
  case (3 E u v vs)
  show ?case
  proof (cases "x = u")
    case True
    then show ?thesis by (simp add: component_refl)
  next
    case False
    then have "x \<in> set (v # vs)" using "3.prems" by simp
    then have "(v, x) \<in> component E" using "3.IH" "3.prems" by simp
    moreover have "(u, v) \<in> component E" using "3.prems" by (simp add: component_edge)
    ultimately show ?thesis using component_trans by fastforce
  qed
qed

lemma simple_path_component: "simple_path E a b p \<Longrightarrow> (a, b) \<in> component E"
proof -
  assume s: "simple_path E a b p"
  then have "p \<noteq> []" by (auto simp: simple_path_def walk_nonempty)
  then have "last p \<in> set p" by simp
  then show ?thesis using s walk_component[of E p "last p"] by (simp add: simple_path_def)
qed

lemma walk_suffix: "walk E (p1 @ x # p2) \<Longrightarrow> walk E (x # p2)"
proof (induction p1)
  case Nil
  then show ?case by simp
next
  case (Cons a p1)
  then show ?case by (simp add: walk_Cons_iff)
qed

lemma exists_simple_path:
  assumes "(a, b) \<in> component E"
  shows "\<exists>p. simple_path E a b p"
proof -
  from assms have "(a, b) \<in> (E \<union> E\<inverse>)\<^sup>*" by (simp add: component_def)
  then show ?thesis
  proof (induction rule: converse_rtrancl_induct)
    case base
    have "simple_path E b b [b]" by (simp add: simple_path_def)
    then show ?case by blast
  next
    case (step x y)
    then obtain p where p: "simple_path E y b p" by blast
    then have ne: "p \<noteq> []" by (auto simp: simple_path_def walk_nonempty)
    have e: "(x, y) \<in> E \<or> (y, x) \<in> E" using step.hyps by auto
    show ?case
    proof (cases "x \<in> set p")
      case True
      then obtain p1 p2 where sp: "p = p1 @ x # p2" by (meson split_list)
      have "walk E (x # p2)" using p walk_suffix[of E p1 x p2] unfolding sp simple_path_def by blast
      moreover have "distinct (x # p2)" using p unfolding sp simple_path_def by simp
      moreover have "last (x # p2) = b" using p unfolding sp simple_path_def by simp
      ultimately have "simple_path E x b (x # p2)" by (simp add: simple_path_def)
      then show ?thesis by blast
    next
      case False
      have "walk E (x # p)" using p e ne by (simp add: walk_Cons_iff simple_path_def)
      then have "simple_path E x b (x # p)" using p False ne by (simp add: simple_path_def)
      then show ?thesis by blast
    qed
  qed
qed

lemma component_iff_path: "(a, b) \<in> component E \<longleftrightarrow> (\<exists>p. simple_path E a b p)"
  using exists_simple_path[of a b E] simple_path_component[of E a b] by blast

lemma walk_mono: "E \<subseteq> E' \<Longrightarrow> walk E p \<Longrightarrow> walk E' p"
  by (induction E p rule: walk.induct) auto

lemma walk_insert_split:
  "walk (insert (u, v) E) p \<Longrightarrow> distinct p \<Longrightarrow> walk E p \<or> crosses E u v p \<or> crosses E v u p"
proof (induction p)
  case Nil
  then show ?case by simp
next
  case (Cons x p)
  show ?case
  proof (cases "p = []")
    case True
    then show ?thesis by simp
  next
    case False
    then have w: "walk (insert (u, v) E) p" and d: "distinct p" and xp: "x \<notin> set p"
      and e: "(x, hd p) \<in> insert (u, v) E \<or> (hd p, x) \<in> insert (u, v) E"
      using Cons.prems by (simp_all add: walk_Cons_iff)
    from Cons.IH[OF w d] consider
      (plain) "walk E p" | (uv) "crosses E u v p" | (vu) "crosses E v u p" by blast
    then show ?thesis
    proof cases
      case plain
      show ?thesis
      proof (cases "(x, hd p) \<in> E \<or> (hd p, x) \<in> E")
        case True
        then show ?thesis using plain False by (simp add: walk_Cons_iff)
      next
        case nE: False
        then have "(x = u \<and> hd p = v) \<or> (x = v \<and> hd p = u)" using e by auto
        then show ?thesis
        proof
          assume "x = u \<and> hd p = v"
          then have "crosses E u v (x # p)"
            unfolding crosses_def using plain False
            by (intro exI[of _ "[x]"] exI[of _ p]) simp
          then show ?thesis by simp
        next
          assume "x = v \<and> hd p = u"
          then have "crosses E v u (x # p)"
            unfolding crosses_def using plain False
            by (intro exI[of _ "[x]"] exI[of _ p]) simp
          then show ?thesis by simp
        qed
      qed
    next
      case uv
      then obtain p1 p2 where s: "p = p1 @ p2" "p1 \<noteq> []" "p2 \<noteq> []" "walk E p1" "walk E p2"
          "last p1 = u" "hd p2 = v"
        unfolding crosses_def by blast
      have "u \<in> set p" "v \<in> set p" using s by (auto simp: last_in_set hd_in_set)
      then have "x \<noteq> u" "x \<noteq> v" using xp by auto
      then have eE: "(x, hd p) \<in> E \<or> (hd p, x) \<in> E" using e by auto
      have "hd p = hd p1" using s by simp
      then have "walk E (x # p1)" using eE s by (simp add: walk_Cons_iff)
      then have "crosses E u v (x # p)"
        unfolding crosses_def using s
        by (intro exI[of _ "x # p1"] exI[of _ p2]) simp
      then show ?thesis by simp
    next
      case vu
      then obtain p1 p2 where s: "p = p1 @ p2" "p1 \<noteq> []" "p2 \<noteq> []" "walk E p1" "walk E p2"
          "last p1 = v" "hd p2 = u"
        unfolding crosses_def by blast
      have "u \<in> set p" "v \<in> set p" using s by (auto simp: last_in_set hd_in_set)
      then have "x \<noteq> u" "x \<noteq> v" using xp by auto
      then have eE: "(x, hd p) \<in> E \<or> (hd p, x) \<in> E" using e by auto
      have "hd p = hd p1" using s by simp
      then have "walk E (x # p1)" using eE s by (simp add: walk_Cons_iff)
      then have "crosses E v u (x # p)"
        unfolding crosses_def using s
        by (intro exI[of _ "x # p1"] exI[of _ p2]) simp
      then show ?thesis by simp
    qed
  qed
qed

lemma crosses_paths:
  assumes "crosses E u v p" "distinct p" "hd p = a" "last p = b"
  shows "\<exists>p1 p2. p = p1 @ p2 \<and> simple_path E a u p1 \<and> simple_path E v b p2"
proof -
  from assms(1) obtain p1 p2 where s: "p = p1 @ p2" "p1 \<noteq> []" "p2 \<noteq> []" "walk E p1" "walk E p2"
      "last p1 = u" "hd p2 = v"
    unfolding crosses_def by blast
  have "simple_path E a u p1" using s assms(2,3) by (simp add: simple_path_def)
  moreover have "simple_path E v b p2" using s assms(2,4) by (simp add: simple_path_def)
  ultimately show ?thesis using s(1) by blast
qed

lemma forest_insert:
  assumes f: "forest E" and n: "(u, v) \<notin> component E"
  shows "forest (insert (u, v) E)"
  unfolding forest_def
proof (intro allI impI)
  fix a b p q
  assume p: "simple_path (insert (u, v) E) a b p" and q: "simple_path (insert (u, v) E) a b q"
  note c = simple_path_component[of E] component_sym[of _ _ E] component_trans[of _ _ E]
  have nv: "(v, u) \<notin> component E" using n c(2) by blast
  have uniq: "\<And>x y r r'. simple_path E x y r \<Longrightarrow> simple_path E x y r' \<Longrightarrow> r = r'"
    using f unfolding forest_def by blast
  have pd: "distinct p" "hd p = a" "last p = b" and qd: "distinct q" "hd q = a" "last q = b"
    using p q by (simp_all add: simple_path_def)
  have pw: "walk E p \<or> crosses E u v p \<or> crosses E v u p"
    using p by (intro walk_insert_split) (simp_all add: simple_path_def)
  have qw: "walk E q \<or> crosses E u v q \<or> crosses E v u q"
    using q by (intro walk_insert_split) (simp_all add: simple_path_def)
  have plain: "walk E r \<Longrightarrow> distinct r \<Longrightarrow> hd r = a \<Longrightarrow> last r = b \<Longrightarrow> (a, b) \<in> component E" for r
    using c(1)[of a b r] by (simp add: simple_path_def)
  have cr: "crosses E x y r \<Longrightarrow> distinct r \<Longrightarrow> hd r = a \<Longrightarrow> last r = b
      \<Longrightarrow> (a, x) \<in> component E \<and> (y, b) \<in> component E" for x y r
    using crosses_paths[of E x y r a b] c(1) by blast
  have same: "crosses E x y r \<Longrightarrow> crosses E x y r' \<Longrightarrow> distinct r \<Longrightarrow> hd r = a \<Longrightarrow> last r = b
      \<Longrightarrow> distinct r' \<Longrightarrow> hd r' = a \<Longrightarrow> last r' = b \<Longrightarrow> r = r'" for x y r r'
  proof -
    assume a: "crosses E x y r" "crosses E x y r'" "distinct r" "hd r = a" "last r = b"
      "distinct r'" "hd r' = a" "last r' = b"
    obtain r1 r2 where r: "r = r1 @ r2" "simple_path E a x r1" "simple_path E y b r2"
      using crosses_paths[OF a(1,3,4,5)] by blast
    obtain s1 s2 where s: "r' = s1 @ s2" "simple_path E a x s1" "simple_path E y b s2"
      using crosses_paths[OF a(2,6,7,8)] by blast
    have "r1 = s1" using r(2) s(2) by (rule uniq)
    moreover have "r2 = s2" using r(3) s(3) by (rule uniq)
    ultimately show "r = r'" using r(1) s(1) by simp
  qed
  from pw qw consider
      (pp) "walk E p" "walk E q"
    | (pc) "walk E p" "crosses E u v q \<or> crosses E v u q"
    | (cp) "crosses E u v p \<or> crosses E v u p" "walk E q"
    | (uu) "crosses E u v p" "crosses E u v q"
    | (vv) "crosses E v u p" "crosses E v u q"
    | (uv) "crosses E u v p" "crosses E v u q"
    | (vu) "crosses E v u p" "crosses E u v q"
    by blast
  then show "p = q"
  proof cases
    case pp
    then have "simple_path E a b p" "simple_path E a b q" using pd qd by (simp_all add: simple_path_def)
    then show ?thesis by (rule uniq)
  next
    case pc
    have ab: "(a, b) \<in> component E" using pc(1) pd by (rule plain)
    from pc(2) show ?thesis
    proof
      assume "crosses E u v q"
      then have "(a, u) \<in> component E \<and> (v, b) \<in> component E" using qd by (rule cr)
      then have "(u, v) \<in> component E" using ab c(2,3) by blast
      then show ?thesis using n by simp
    next
      assume "crosses E v u q"
      then have "(a, v) \<in> component E \<and> (u, b) \<in> component E" using qd by (rule cr)
      then have "(u, v) \<in> component E" using ab c(2,3) by blast
      then show ?thesis using n by simp
    qed
  next
    case cp
    have ab: "(a, b) \<in> component E" using cp(2) qd by (rule plain)
    from cp(1) show ?thesis
    proof
      assume "crosses E u v p"
      then have "(a, u) \<in> component E \<and> (v, b) \<in> component E" using pd by (rule cr)
      then have "(u, v) \<in> component E" using ab c(2,3) by blast
      then show ?thesis using n by simp
    next
      assume "crosses E v u p"
      then have "(a, v) \<in> component E \<and> (u, b) \<in> component E" using pd by (rule cr)
      then have "(u, v) \<in> component E" using ab c(2,3) by blast
      then show ?thesis using n by simp
    qed
  next
    case uu
    then show ?thesis using pd qd by (rule same)
  next
    case vv
    then show ?thesis using pd qd by (rule same)
  next
    case uv
    have "(a, u) \<in> component E \<and> (v, b) \<in> component E" using uv(1) pd by (rule cr)
    moreover have "(a, v) \<in> component E \<and> (u, b) \<in> component E" using uv(2) qd by (rule cr)
    ultimately have "(u, v) \<in> component E" using c(2,3) by blast
    then show ?thesis using n by simp
  next
    case vu
    have "(a, v) \<in> component E \<and> (u, b) \<in> component E" using vu(1) pd by (rule cr)
    moreover have "(a, u) \<in> component E \<and> (v, b) \<in> component E" using vu(2) qd by (rule cr)
    ultimately have "(u, v) \<in> component E" using c(2,3) by blast
    then show ?thesis using n by simp
  qed
qed

lemma forest_empty: "forest {}"
proof -
  have "walk {} p \<Longrightarrow> p = [hd p]" for p :: "'a list"
    by (induction "{} :: ('a \<times> 'a) set" p rule: walk.induct) simp_all
  then show ?thesis unfolding forest_def simple_path_def by metis
qed

section \<open>Flat trees, components and sizes\<close>

lemma compress_state_flat:
  assumes pq: "root_of (parent_map s) p q" and f: "flat s x"
  shows "flat (compress_state s p q) x"
proof -
  from f obtain r where r: "parent_map s x = Some r" "parent_map s r = Some r"
    unfolding flat_def by blast
  have q: "parent_map s q = Some q" using pq by (rule root_of_is_root)
  have rr: "parent_map (compress_state s p q) r = Some r"
    using r(2) compressed_is_root_iff[OF pq, of r] by (simp add: compress_state_def)
  have qq: "parent_map (compress_state s p q) q = Some q"
    using q compressed_is_root_iff[OF pq, of q] by (simp add: compress_state_def)
  show ?thesis
  proof (cases "anc (parent_map s) p x \<and> x \<noteq> q")
    case True
    then have "parent_map (compress_state s p q) x = Some q"
      by (simp add: compress_state_def compressed_def)
    then show ?thesis using qq unfolding flat_def by blast
  next
    case False
    then have "parent_map (compress_state s p q) x = Some r"
      using r(1) by (auto simp: compress_state_def compressed_def)
    then show ?thesis using rr unfolding flat_def by blast
  qed
qed

lemma compress_state_flat_self:
  assumes pq: "root_of (parent_map s) p q"
  shows "flat (compress_state s p q) p"
proof -
  have q: "parent_map s q = Some q" using pq by (rule root_of_is_root)
  have qq: "parent_map (compress_state s p q) q = Some q"
    using q compressed_is_root_iff[OF pq, of q] by (simp add: compress_state_def)
  have "parent_map (compress_state s p q) p = Some q"
  proof (cases "p = q")
    case True
    then show ?thesis using qq by simp
  next
    case False
    then show ?thesis by (simp add: compress_state_def compressed_def anc_self)
  qed
  then show ?thesis using qq unfolding flat_def by blast
qed

lemma find_all_flat:
  assumes "dset_inv n s" "\<forall>x\<in>set xs. 0 \<le> x \<and> x < n"
  shows "\<exists>s'. exec_ops s (map Find xs) = Some (Inr s') \<and> dset_inv n s' \<and>
           (\<forall>x\<in>set xs. flat s' x) \<and> (\<forall>x. flat s x \<longrightarrow> flat s' x)"
  using assms
proof (induction xs arbitrary: s)
  case Nil
  then show ?case by simp
next
  case (Cons p xs)
  then have p: "0 \<le> p" "p < n" by simp_all
  obtain r where r: "root_of (parent_map s) p r" using inv_has_root[OF Cons.prems(1) p] by blast
  let ?s1 = "compress_state s p r"
  have i1: "dset_inv n ?s1" using Cons.prems(1) r by (rule compress_state_inv)
  have "\<forall>x\<in>set xs. 0 \<le> x \<and> x < n" using Cons.prems(2) by simp
  from Cons.IH[OF i1 this] obtain s' where s': "exec_ops ?s1 (map Find xs) = Some (Inr s')"
      "dset_inv n s'" "\<forall>x\<in>set xs. flat s' x" "\<forall>x. flat ?s1 x \<longrightarrow> flat s' x"
    by blast
  have e: "exec_ops s (map Find (p # xs)) = Some (Inr s')"
    using s'(1) by (simp add: wqu_find_eq[OF r])
  have "flat s' p" using s'(4) compress_state_flat_self[OF r] by blast
  moreover have "\<forall>x. flat s x \<longrightarrow> flat s' x" using s'(4) compress_state_flat[OF r] by blast
  ultimately show ?case using e s'(2,3) by auto
qed

lemma set_upto_range: "set [0..n - 1] = {x. 0 \<le> x \<and> x < (n::int)}"
  by auto

lemma inv_set_of_component:
  assumes i: "dset_inv n s" and a: "agrees n s E" and x: "0 \<le> x" "x < n"
    and r: "root_of (parent_map s) x r"
  shows "{y. 0 \<le> y \<and> y < n \<and> (x, y) \<in> component E} = set_of s r"
proof -
  have "same_set s x y \<longleftrightarrow> root_of (parent_map s) y r" for y
    using same_set_right[OF r] by simp
  then have "root_of (parent_map s) y r \<longleftrightarrow> 0 \<le> y \<and> y < n \<and> (x, y) \<in> component E" for y
    using a x unfolding agrees_def by auto
  then show ?thesis unfolding set_of_def by auto
qed

lemma roots_in_range: "dset_inv n s \<Longrightarrow> r \<in> roots s \<Longrightarrow> 0 \<le> r \<and> r < n"
  by (auto simp: roots_def dset_inv_def dom_def)

lemma components_eq:
  assumes i: "dset_inv n s" and a: "agrees n s E"
  shows "components n E = set_of s ` roots s"
proof
  show "components n E \<subseteq> set_of s ` roots s"
  proof
    fix C assume "C \<in> components n E"
    then obtain x where x: "0 \<le> x" "x < n" and C: "C = {y. 0 \<le> y \<and> y < n \<and> (x, y) \<in> component E}"
      unfolding components_def by auto
    obtain r where r: "root_of (parent_map s) x r" using inv_has_root[OF i x] by blast
    have "C = set_of s r" unfolding C using i a x r by (rule inv_set_of_component)
    moreover have "r \<in> roots s" using r by (rule root_of_root_in_roots)
    ultimately show "C \<in> set_of s ` roots s" by blast
  qed
next
  show "set_of s ` roots s \<subseteq> components n E"
  proof
    fix C assume "C \<in> set_of s ` roots s"
    then obtain r where r: "r \<in> roots s" and C: "C = set_of s r" by blast
    have rr: "0 \<le> r" "r < n" using roots_in_range[OF i r] by simp_all
    have "root_of (parent_map s) r r" using r by (simp add: roots_def root_self)
    then have "{y. 0 \<le> y \<and> y < n \<and> (r, y) \<in> component E} = set_of s r"
      using i a rr by (intro inv_set_of_component)
    then show "C \<in> components n E" unfolding components_def C using rr by auto
  qed
qed

lemma count_components:
  assumes i: "dset_inv n s" and a: "agrees n s E"
  shows "count' s = int (card (components n E))"
proof -
  have "inj_on (set_of s) (roots s)"
  proof (rule inj_onI)
    fix r r' assume r: "r \<in> roots s" "r' \<in> roots s" and e: "set_of s r = set_of s r'"
    have "r \<in> set_of s r" using r(1) by (simp add: roots_def set_of_def root_self)
    then have "r \<in> set_of s r'" using e by simp
    then have "root_of (parent_map s) r r'" by (simp add: set_of_def)
    then show "r = r'" using r(1) by (simp add: roots_def root_of_root_iff)
  qed
  then have "card (set_of s ` roots s) = card (roots s)" by (rule card_image)
  then show ?thesis using i unfolding components_eq[OF i a] by (simp add: dset_inv_def)
qed

lemma inv_count_pos:
  assumes i: "dset_inv n s" and n: "1 \<le> n"
  shows "1 \<le> count' s"
proof -
  obtain r where "root_of (parent_map s) 0 r" using inv_has_root[OF i, of 0] n by auto
  then have "r \<in> roots s" by (rule root_of_root_in_roots)
  then have "card (roots s) \<noteq> 0" using finite_roots[OF i] by auto
  then show ?thesis using i by (simp add: dset_inv_def)
qed

lemma compress_state_root_fields:
  assumes pq: "root_of (parent_map s) p q" and r: "r \<in> roots s"
  shows "parent_map (compress_state s p q) r = Some r"
    and "sz_map (compress_state s p q) r = sz_map s r"
proof -
  have pr: "parent_map s r = Some r" using r by (simp add: roots_def)
  show "parent_map (compress_state s p q) r = Some r"
    using pr compressed_is_root_iff[OF pq, of r] by (simp add: compress_state_def)
  show "sz_map (compress_state s p q) r = sz_map s r"
    using compressed_sz_root[OF pq pr] by (simp add: compress_state_def)
qed

lemma union_detail:
  assumes i: "dset_inv n s" and rp: "root_of (parent_map s) p rp" and rq: "root_of (parent_map s) q rq"
  shows "\<exists>s' szp szq. wqu_union s p q = Some (Inr s') \<and>
           sz_map s rp = Some szp \<and> sz_map s rq = Some szq \<and>
           (rp \<noteq> rq \<and> szp < szq \<longrightarrow>
              parent_map s' rp = Some rq \<and> parent_map s' rq = Some rq \<and>
              sz_map s' rq = Some (szp + szq) \<and> count' s' = count' s - 1) \<and>
           (rp \<noteq> rq \<and> \<not> szp < szq \<longrightarrow>
              parent_map s' rq = Some rp \<and> parent_map s' rp = Some rp \<and>
              sz_map s' rp = Some (szp + szq) \<and> count' s' = count' s - 1) \<and>
           (rp = rq \<longrightarrow> s' = compress_state (compress_state s p rp) q rq)"
proof -
  let ?s1 = "compress_state s p rp"
  let ?s2 = "compress_state ?s1 q rq"
  have i1: "dset_inv n ?s1" using i rp by (rule compress_state_inv)
  have rq1: "root_of (parent_map ?s1) q rq" using rq by (simp add: compress_state_root_of[OF i rp])
  have ro: "rp \<in> roots s" "rq \<in> roots s" using rp rq by (simp_all add: root_of_root_in_roots)
  then have ro1: "rp \<in> roots ?s1" "rq \<in> roots ?s1" by (simp_all add: compress_state_roots[OF rp])
  obtain szp szq where sz: "sz_map s rp = Some szp" "sz_map s rq = Some szq"
    using i ro by (simp add: dset_inv_def)
  have f: "parent_map ?s2 rp = Some rp" "parent_map ?s2 rq = Some rq"
    "sz_map ?s2 rp = Some szp" "sz_map ?s2 rq = Some szq"
    using sz by (simp_all add: compress_state_root_fields[OF rq1 ro1(1)]
        compress_state_root_fields[OF rq1 ro1(2)] compress_state_root_fields[OF rp ro(1)]
        compress_state_root_fields[OF rp ro(2)])
  define R where "R = (if rq = rp then ?s2
     else if the (sz_map ?s2 rp) < the (sz_map ?s2 rq) then link_state ?s2 rp rq
     else link_state ?s2 rq rp)"
  have u: "wqu_union s p q = Some (Inr R)"
    unfolding wqu_union_eq[OF i rp rq] R_def Let_def by (rule refl)
  have a: "rp \<noteq> rq \<and> szp < szq \<longrightarrow>
              parent_map R rp = Some rq \<and> parent_map R rq = Some rq \<and>
              sz_map R rq = Some (szp + szq) \<and> count' R = count' s - 1"
    unfolding R_def using f by (auto simp: link_state_def)
  have b: "rp \<noteq> rq \<and> \<not> szp < szq \<longrightarrow>
              parent_map R rq = Some rp \<and> parent_map R rp = Some rp \<and>
              sz_map R rp = Some (szp + szq) \<and> count' R = count' s - 1"
    unfolding R_def using f by (auto simp: link_state_def)
  have c: "rp = rq \<longrightarrow> R = ?s2" unfolding R_def by simp
  show ?thesis using u sz a b c by blast
qed

section \<open>Properties of the disjoint set\<close>

text \<open>
  C2.  For every \<open>n \<ge> 0\<close> and every sequence of operations on in-range elements,
  \<^verbatim>\<open>is_connected(p, q)\<close> returns and its answer is true exactly when \<open>p\<close> and \<open>q\<close> lie
  in the same connected component of the undirected graph whose edges are the \<^verbatim>\<open>union\<close>
  calls made so far; that relation is reflexive, symmetric and transitive.
\<close>

theorem wqu_is_connected_correct:
  assumes "0 \<le> n" and "list_all (op_ok n) ops"
  shows "\<exists>s. run n ops = Some (Inr s) \<and>
           (\<forall>p q. 0 \<le> p \<and> p < n \<and> 0 \<le> q \<and> q < n \<longrightarrow>
              (\<exists>s'. wqu_is_connected s p q =
                      Some (Inr (s', (p, q) \<in> component (set (union_edges ops)))))) \<and>
           (\<forall>p. (p, p) \<in> component (set (union_edges ops))) \<and>
           (\<forall>p q. (p, q) \<in> component (set (union_edges ops)) \<longrightarrow>
                   (q, p) \<in> component (set (union_edges ops))) \<and>
           (\<forall>p q r. (p, q) \<in> component (set (union_edges ops)) \<longrightarrow>
                     (q, r) \<in> component (set (union_edges ops)) \<longrightarrow>
                     (p, r) \<in> component (set (union_edges ops)))"
proof -
  let ?E = "set (union_edges ops)"
  obtain s where s: "run n ops = Some (Inr s)" "dset_inv n s" "agrees n s ?E"
    using run_ok[OF assms] by blast
  have "\<exists>s'. wqu_is_connected s p q = Some (Inr (s', (p, q) \<in> component ?E))"
    if "0 \<le> p \<and> p < n \<and> 0 \<le> q \<and> q < n" for p q
  proof -
    have "same_set s p q \<longleftrightarrow> (p, q) \<in> component ?E"
      using s(3) that by (simp add: agrees_def)
    then show ?thesis using is_connected_ok[OF s(2), of p q] that by auto
  qed
  then show ?thesis
    using s(1) component_refl[of _ ?E] component_sym[of _ _ ?E] component_trans[of _ _ ?E]
    by blast
qed

theorem wqu_is_connected_correct_witness:
  "\<exists>s. run 3 [Union 0 1, IsConnected 1 2, Union 1 2] = Some (Inr s) \<and>
     (\<forall>p q. 0 \<le> p \<and> p < 3 \<and> 0 \<le> q \<and> q < 3 \<longrightarrow>
        (\<exists>s'. wqu_is_connected s p q =
           Some (Inr (s', (p, q) \<in> component (set (union_edges [Union 0 1, IsConnected 1 2, Union 1 2]))))))"
proof -
  have h1: "(0::int) \<le> 3" by simp
  have h2: "list_all (op_ok 3) [Union 0 1, IsConnected 1 2, Union 1 2]" by simp
  show ?thesis using wqu_is_connected_correct[OF h1 h2] by blast
qed

text \<open>
  C3, first as the claim has it for an already-connected pair: \<^verbatim>\<open>union\<close> "changes
  nothing".  After \<^verbatim>\<open>union(0,1); union(2,3); union(1,3)\<close> the elements 3 and 0 have the
  same root, yet \<^verbatim>\<open>union(3, 0)\<close> repoints 3 from its parent 2 to the root 0: the two \<^verbatim>\<open>find\<close> calls inside \<^verbatim>\<open>union\<close> compress paths
  before the roots are compared.
\<close>

theorem wqu_union_connected_pair_counterexample:
  "find_root (parent_map (state_of (run 4 [Union 0 1, Union 2 3, Union 1 3]))) 3 =
     find_root (parent_map (state_of (run 4 [Union 0 1, Union 2 3, Union 1 3]))) 0 \<and>
   parent_map (state_of (run 4 [Union 0 1, Union 2 3, Union 1 3])) 3 = Some 2 \<and>
   parent_map (state_of (wqu_union (state_of (run 4 [Union 0 1, Union 2 3, Union 1 3])) 3 0)) 3 = Some 0"
  by code_simp

text \<open>
  C3 as amended.  In every state reached by in-range operations, \<^verbatim>\<open>union(p, q)\<close> returns.
  When the roots \<open>rp\<close> of \<open>p\<close> and \<open>rq\<close> of \<open>q\<close> differ, the root with the strictly
  smaller recorded size is attached under the other one, a tie attaches \<open>rq\<close> under \<open>rp\<close>,
  the surviving root's recorded size becomes the sum of both and the count drops by
  exactly 1.  When the roots are equal, the count, the set of roots, every element's
  root and every root's recorded size are unchanged (only path compression happens).
\<close>

theorem wqu_union_by_size:
  assumes "0 \<le> n" and "list_all (op_ok n) ops"
    and "0 \<le> p" and "p < n" and "0 \<le> q" and "q < n"
  shows "\<exists>s rp rq szp szq s'. run n ops = Some (Inr s) \<and>
           root_of (parent_map s) p rp \<and> root_of (parent_map s) q rq \<and>
           sz_map s rp = Some szp \<and> sz_map s rq = Some szq \<and>
           wqu_union s p q = Some (Inr s') \<and>
           (rp \<noteq> rq \<and> szp < szq \<longrightarrow>
              parent_map s' rp = Some rq \<and> parent_map s' rq = Some rq \<and>
              sz_map s' rq = Some (szp + szq) \<and> wqu_count s' = wqu_count s - 1) \<and>
           (rp \<noteq> rq \<and> \<not> szp < szq \<longrightarrow>
              parent_map s' rq = Some rp \<and> parent_map s' rp = Some rp \<and>
              sz_map s' rp = Some (szp + szq) \<and> wqu_count s' = wqu_count s - 1) \<and>
           (rp = rq \<longrightarrow>
              wqu_count s' = wqu_count s \<and> roots s' = roots s \<and>
              (\<forall>x r. root_of (parent_map s') x r \<longleftrightarrow> root_of (parent_map s) x r) \<and>
              (\<forall>r\<in>roots s. sz_map s' r = sz_map s r))"
proof -
  obtain s where s: "run n ops = Some (Inr s)" "dset_inv n s"
    using run_ok[OF assms(1,2)] by blast
  obtain rp where rp: "root_of (parent_map s) p rp" using inv_has_root[OF s(2) assms(3,4)] by blast
  obtain rq where rq: "root_of (parent_map s) q rq" using inv_has_root[OF s(2) assms(5,6)] by blast
  let ?s1 = "compress_state s p rp"
  let ?s2 = "compress_state ?s1 q rq"
  have rq1: "root_of (parent_map ?s1) q rq" using rq by (simp add: compress_state_root_of[OF s(2) rp])
  have i1: "dset_inv n ?s1" using s(2) rp by (rule compress_state_inv)
  obtain s' szp szq where u: "wqu_union s p q = Some (Inr s')"
      "sz_map s rp = Some szp" "sz_map s rq = Some szq"
      "rp \<noteq> rq \<and> szp < szq \<longrightarrow>
              parent_map s' rp = Some rq \<and> parent_map s' rq = Some rq \<and>
              sz_map s' rq = Some (szp + szq) \<and> count' s' = count' s - 1"
      "rp \<noteq> rq \<and> \<not> szp < szq \<longrightarrow>
              parent_map s' rq = Some rp \<and> parent_map s' rp = Some rp \<and>
              sz_map s' rp = Some (szp + szq) \<and> count' s' = count' s - 1"
      "rp = rq \<longrightarrow> s' = ?s2"
    using union_detail[OF s(2) rp rq] by blast
  have e1: "count' ?s2 = count' s" by simp
  have e2: "roots ?s2 = roots s"
    by (simp add: compress_state_roots[OF rq1] compress_state_roots[OF rp])
  have e3: "\<forall>x r. root_of (parent_map ?s2) x r \<longleftrightarrow> root_of (parent_map s) x r"
    by (simp add: compress_state_root_of[OF i1 rq1] compress_state_root_of[OF s(2) rp])
  have e4: "\<forall>r\<in>roots s. sz_map ?s2 r = sz_map s r"
  proof
    fix r assume r: "r \<in> roots s"
    then have "r \<in> roots ?s1" by (simp add: compress_state_roots[OF rp])
    then show "sz_map ?s2 r = sz_map s r"
      by (simp add: compress_state_root_fields(2)[OF rq1] compress_state_root_fields(2)[OF rp r])
  qed
  have "rp = rq \<longrightarrow>
              wqu_count s' = wqu_count s \<and> roots s' = roots s \<and>
              (\<forall>x r. root_of (parent_map s') x r \<longleftrightarrow> root_of (parent_map s) x r) \<and>
              (\<forall>r\<in>roots s. sz_map s' r = sz_map s r)"
  proof
    assume "rp = rq"
    then have "s' = ?s2" using u(6) by simp
    then show "wqu_count s' = wqu_count s \<and> roots s' = roots s \<and>
              (\<forall>x r. root_of (parent_map s') x r \<longleftrightarrow> root_of (parent_map s) x r) \<and>
              (\<forall>r\<in>roots s. sz_map s' r = sz_map s r)"
      using e1 e2 e3 e4 by (simp add: wqu_count_def)
  qed
  then show ?thesis using s(1) rp rq u(1-5) unfolding wqu_count_def by blast
qed

theorem wqu_union_by_size_witness:
  "\<exists>s rp rq szp szq s'. run 3 [Union 0 1] = Some (Inr s) \<and>
           root_of (parent_map s) 2 rp \<and> root_of (parent_map s) 1 rq \<and>
           sz_map s rp = Some szp \<and> sz_map s rq = Some szq \<and>
           wqu_union s 2 1 = Some (Inr s') \<and>
           (rp \<noteq> rq \<and> szp < szq \<longrightarrow>
              parent_map s' rp = Some rq \<and> parent_map s' rq = Some rq \<and>
              sz_map s' rq = Some (szp + szq) \<and> wqu_count s' = wqu_count s - 1)"
proof -
  have h1: "(0::int) \<le> 3" by simp
  have h2: "list_all (op_ok 3) [Union 0 1]" by simp
  have h3: "(0::int) \<le> 2" "(2::int) < 3" "(0::int) \<le> 1" "(1::int) < 3" by simp_all
  show ?thesis using wqu_union_by_size[OF h1 h2 h3] by blast
qed

text \<open>
  C4.  \<^verbatim>\<open>find(p)\<close> works in two passes: the first walks from \<open>p\<close> to the root without
  changing anything; the second repoints exactly the nodes on the path from \<open>p\<close> (the
  root excepted) to the root.  After \<^verbatim>\<open>find\<close> has been called once on every element,
  the direct parent of every element is a root.
\<close>

theorem wqu_find_path_compression:
  assumes "0 \<le> n" and "list_all (op_ok n) ops"
  shows "\<exists>s. run n ops = Some (Inr s) \<and>
           (\<forall>p. 0 \<le> p \<and> p < n \<longrightarrow>
              (\<exists>r s'. find_root (parent_map s) p = Some (Inr r) \<and>
                 root_of (parent_map s) p r \<and>
                 wqu_find s p = Some (Inr (s', r)) \<and>
                 (\<forall>x. parent_map s' x =
                        (if anc (parent_map s) p x \<and> x \<noteq> r then Some r else parent_map s x)))) \<and>
           (\<exists>s'. exec_ops s (map Find [0..n - 1]) = Some (Inr s') \<and>
              (\<forall>x. 0 \<le> x \<and> x < n \<longrightarrow>
                 (\<exists>r. parent_map s' x = Some r \<and> parent_map s' r = Some r)))"
proof -
  obtain s where s: "run n ops = Some (Inr s)" "dset_inv n s"
    using run_ok[OF assms] by blast
  have a: "\<exists>r s'. find_root (parent_map s) p = Some (Inr r) \<and>
                 root_of (parent_map s) p r \<and>
                 wqu_find s p = Some (Inr (s', r)) \<and>
                 (\<forall>x. parent_map s' x =
                        (if anc (parent_map s) p x \<and> x \<noteq> r then Some r else parent_map s x))"
    if pr: "0 \<le> p \<and> p < n" for p
  proof -
    obtain r where r: "root_of (parent_map s) p r" using inv_has_root[OF s(2), of p] pr by auto
    have "\<forall>x. parent_map (compress_state s p r) x =
                (if anc (parent_map s) p x \<and> x \<noteq> r then Some r else parent_map s x)"
      by (simp add: compress_state_def compressed_def)
    then show ?thesis using r find_root_eq[OF r] wqu_find_eq[OF r] by blast
  qed
  have "\<forall>x\<in>set [0..n - 1]. 0 \<le> x \<and> x < n" by auto
  from find_all_flat[OF s(2) this] obtain s' where
    s': "exec_ops s (map Find [0..n - 1]) = Some (Inr s')" "\<forall>x\<in>set [0..n - 1]. flat s' x"
    by blast
  have "\<forall>x. 0 \<le> x \<and> x < n \<longrightarrow> (\<exists>r. parent_map s' x = Some r \<and> parent_map s' r = Some r)"
    using s'(2) by (simp add: flat_def)
  then show ?thesis using s(1) a s'(1) by blast
qed

theorem wqu_find_path_compression_witness:
  "\<exists>s. run 4 [Union 0 1, Union 2 3, Union 1 3] = Some (Inr s) \<and>
     (\<exists>s'. exec_ops s (map Find [0..4 - 1]) = Some (Inr s') \<and>
        (\<forall>x. 0 \<le> x \<and> x < 4 \<longrightarrow>
           (\<exists>r. parent_map s' x = Some r \<and> parent_map s' r = Some r)))"
proof -
  have h1: "(0::int) \<le> 4" by simp
  have h2: "list_all (op_ok 4) [Union 0 1, Union 2 3, Union 1 3]" by simp
  show ?thesis using wqu_find_path_compression[OF h1 h2] by blast
qed

text \<open>
  C5.  For \<open>n \<ge> 1\<close>: \<^verbatim>\<open>count()\<close> is \<open>n\<close> on the new structure; in every state reached
  by in-range operations it is the number of roots (which is the number of connected
  components of the union graph), it is at least 1, a \<^verbatim>\<open>union\<close> lowers it by exactly 1
  when the pair was not connected and leaves it alone otherwise, and \<^verbatim>\<open>find\<close> and
  \<^verbatim>\<open>is_connected\<close> leave it alone.
\<close>

theorem wqu_count_invariant:
  assumes "1 \<le> n" and "list_all (op_ok n) ops"
  shows "(\<exists>s0. wqu_init n = Inr s0 \<and> wqu_count s0 = n) \<and>
         (\<exists>s. run n ops = Some (Inr s) \<and>
            wqu_count s = int (card (roots s)) \<and>
            wqu_count s = int (card (components n (set (union_edges ops)))) \<and>
            1 \<le> wqu_count s \<and>
            (\<forall>p q. 0 \<le> p \<and> p < n \<and> 0 \<le> q \<and> q < n \<longrightarrow>
               (\<exists>sc b s'. wqu_is_connected s p q = Some (Inr (sc, b)) \<and>
                  wqu_union s p q = Some (Inr s') \<and>
                  wqu_count s' = (if b then wqu_count s else wqu_count s - 1))) \<and>
            (\<forall>p. 0 \<le> p \<and> p < n \<longrightarrow>
               (\<exists>s' r. wqu_find s p = Some (Inr (s', r)) \<and> wqu_count s' = wqu_count s)) \<and>
            (\<forall>p q. 0 \<le> p \<and> p < n \<and> 0 \<le> q \<and> q < n \<longrightarrow>
               (\<exists>s' b. wqu_is_connected s p q = Some (Inr (s', b)) \<and>
                  wqu_count s' = wqu_count s)))"
proof -
  have n0: "0 \<le> n" using assms(1) by simp
  have a: "\<exists>s0. wqu_init n = Inr s0 \<and> wqu_count s0 = n"
    by (simp add: wqu_init_eq wqu_count_def init_state_def)
  obtain s where s: "run n ops = Some (Inr s)" "dset_inv n s" "agrees n s (set (union_edges ops))"
    using run_ok[OF n0 assms(2)] by blast
  have c1: "wqu_count s = int (card (roots s))" using s(2) by (simp add: wqu_count_def dset_inv_def)
  have c2: "wqu_count s = int (card (components n (set (union_edges ops))))"
    using count_components[OF s(2,3)] by (simp add: wqu_count_def)
  have c3: "1 \<le> wqu_count s" using inv_count_pos[OF s(2) assms(1)] by (simp add: wqu_count_def)
  have u: "\<exists>sc b s'. wqu_is_connected s p q = Some (Inr (sc, b)) \<and>
                  wqu_union s p q = Some (Inr s') \<and>
                  wqu_count s' = (if b then wqu_count s else wqu_count s - 1)"
    if pq: "0 \<le> p \<and> p < n \<and> 0 \<le> q \<and> q < n" for p q
    using is_connected_ok[OF s(2), of p q] union_ok[OF s(2), of p q] pq
    unfolding wqu_count_def by blast
  have f: "\<exists>s' r. wqu_find s p = Some (Inr (s', r)) \<and> wqu_count s' = wqu_count s"
    if pr: "0 \<le> p \<and> p < n" for p
    using find_ok[OF s(2), of p] pr unfolding wqu_count_def by blast
  have ic: "\<exists>s' b. wqu_is_connected s p q = Some (Inr (s', b)) \<and> wqu_count s' = wqu_count s"
    if pq: "0 \<le> p \<and> p < n \<and> 0 \<le> q \<and> q < n" for p q
    using is_connected_ok[OF s(2), of p q] pq unfolding wqu_count_def by blast
  show ?thesis using a s(1) c1 c2 c3 u f ic by blast
qed

theorem wqu_count_invariant_witness:
  "\<exists>s. run 5 [Union 0 1, Union 2 3, Union 1 2, Union 0 3] = Some (Inr s) \<and>
     wqu_count s = int (card (roots s)) \<and> 1 \<le> wqu_count s"
proof -
  have h1: "(1::int) \<le> 5" by simp
  have h2: "list_all (op_ok 5) [Union 0 1, Union 2 3, Union 1 2, Union 0 3]" by simp
  show ?thesis using wqu_count_invariant[OF h1 h2] by blast
qed

text \<open>
  C8, first as the claim has it: creating the structure with \<open>n < 0\<close> fails.  The
  constructor has no check; with \<open>n = -1\<close> it returns an empty structure whose count
  is \<open>-1\<close>.
\<close>

theorem wqu_init_negative_counterexample:
  "wqu_init (- 1) = Inr \<lparr>count' = - 1, parent_map = Map.empty, sz_map = Map.empty\<rparr>"
  by (simp add: wqu_init_def)

text \<open>
  C8 as amended.  The constructor never raises.  It returns the structure in which
  exactly the elements \<open>0 \<le> i < n\<close> are present, each its own parent (a root) with
  recorded size 1, and whose count is \<open>n\<close>; for \<open>n \<le> 0\<close> that structure is empty.
\<close>

theorem wqu_init_singletons:
  "\<exists>s. wqu_init n = Inr s \<and> wqu_count s = n \<and>
     (\<forall>i. parent_map s i = (if 0 \<le> i \<and> i < n then Some i else None)) \<and>
     (\<forall>i. sz_map s i = (if 0 \<le> i \<and> i < n then Some 1 else None))"
  by (simp add: wqu_init_eq wqu_count_def init_state_def)

text \<open>
  C9.  In every state reached by in-range operations: \<^verbatim>\<open>find(p)\<close> sets the recorded
  size of every node it repoints to the constant 2 and leaves every other recorded size
  alone; nevertheless every root's recorded size is the exact number of elements of its
  set (so \<^verbatim>\<open>union\<close> compares exact sizes), \<^verbatim>\<open>is_connected\<close> answers by the
  connected components of the union graph, and the count is the number of those
  components.
\<close>

theorem wqu_size_quirk_harmless:
  assumes "0 \<le> n" and "list_all (op_ok n) ops"
  shows "\<exists>s. run n ops = Some (Inr s) \<and>
           (\<forall>p. 0 \<le> p \<and> p < n \<longrightarrow>
              (\<exists>r s'. wqu_find s p = Some (Inr (s', r)) \<and>
                 (\<forall>x. sz_map s' x =
                        (if anc (parent_map s) p x \<and> x \<noteq> r then Some 2 else sz_map s x)))) \<and>
           (\<forall>r\<in>roots s. sz_map s r = Some (int (card (set_of s r)))) \<and>
           (\<forall>p q. 0 \<le> p \<and> p < n \<and> 0 \<le> q \<and> q < n \<longrightarrow>
              (\<exists>s'. wqu_is_connected s p q =
                      Some (Inr (s', (p, q) \<in> component (set (union_edges ops)))))) \<and>
           wqu_count s = int (card (components n (set (union_edges ops))))"
proof -
  let ?E = "set (union_edges ops)"
  obtain s where s: "run n ops = Some (Inr s)" "dset_inv n s" "agrees n s ?E"
    using run_ok[OF assms] by blast
  have a: "\<exists>r s'. wqu_find s p = Some (Inr (s', r)) \<and>
                 (\<forall>x. sz_map s' x =
                        (if anc (parent_map s) p x \<and> x \<noteq> r then Some 2 else sz_map s x))"
    if pr: "0 \<le> p \<and> p < n" for p
  proof -
    obtain r where r: "root_of (parent_map s) p r" using inv_has_root[OF s(2), of p] pr by auto
    have "\<forall>x. sz_map (compress_state s p r) x =
                (if anc (parent_map s) p x \<and> x \<noteq> r then Some 2 else sz_map s x)"
      by (simp add: compress_state_def compressed_def)
    then show ?thesis using wqu_find_eq[OF r] by blast
  qed
  have b: "\<forall>r\<in>roots s. sz_map s r = Some (int (card (set_of s r)))"
    using s(2) by (simp add: dset_inv_def)
  have c: "\<exists>s'. wqu_is_connected s p q = Some (Inr (s', (p, q) \<in> component ?E))"
    if pq: "0 \<le> p \<and> p < n \<and> 0 \<le> q \<and> q < n" for p q
  proof -
    have "same_set s p q \<longleftrightarrow> (p, q) \<in> component ?E"
      using s(3) pq by (simp add: agrees_def)
    then show ?thesis using is_connected_ok[OF s(2), of p q] pq by auto
  qed
  have d: "wqu_count s = int (card (components n ?E))"
    using count_components[OF s(2,3)] by (simp add: wqu_count_def)
  show ?thesis using s(1) a b c d by blast
qed

theorem wqu_size_quirk_harmless_witness:
  "\<exists>s. run 4 [Union 0 1, Union 2 3, Union 1 3, Find 3] = Some (Inr s) \<and>
     (\<forall>r\<in>roots s. sz_map s r = Some (int (card (set_of s r)))) \<and>
     wqu_count s =
       int (card (components 4 (set (union_edges [Union 0 1, Union 2 3, Union 1 3, Find 3]))))"
proof -
  have h1: "(0::int) \<le> 4" by simp
  have h2: "list_all (op_ok 4) [Union 0 1, Union 2 3, Union 1 3, Find 3]" by simp
  show ?thesis using wqu_size_quirk_harmless[OF h1 h2] by blast
qed

text \<open>
  The constant is not the node's subtree size: after the operations below, element 3
  is a leaf (nothing points to it), its subtree has one element, and its recorded size
  is 2.
\<close>

lemma recorded_size_not_subtree_size:
  "sz_map (state_of (run 4 [Union 0 1, Union 2 3, Union 1 3, Find 3])) 3 = Some 2 \<and>
   map (parent_map (state_of (run 4 [Union 0 1, Union 2 3, Union 1 3, Find 3]))) [0, 1, 2, 3]
     = [Some 0, Some 0, Some 0, Some 0]"
  by code_simp

section \<open>The three kinds of grid coordinates\<close>

lemma set_py_range: "set (py_range a b s) = {x. a \<le> x \<and> x < b \<and> (x - a) mod s = 0}"
  by (auto simp: py_range_def)

lemma distinct_py_range: "distinct (py_range a b s)"
  by (simp add: py_range_def)

lemma cell_ls_product: "cell_ls w h = List.product (py_range 0 w 2) (py_range 0 h 2)"
  by (simp add: cell_ls_def product_concat_map)

lemma not_care_ls_product: "not_care_ls w h = List.product (py_range 1 w 2) (py_range 1 h 2)"
  by (simp add: not_care_ls_def product_concat_map)

lemma wall_ls_product:
  "wall_ls w h = List.product (py_range 1 w 2) (py_range 0 h 2) @
                 List.product (py_range 0 w 2) (py_range 1 h 2)"
  by (simp add: wall_ls_def product_concat_map)

lemma in_even_range: "x \<in> set (py_range 0 b 2) \<longleftrightarrow> 0 \<le> x \<and> x < b \<and> x mod 2 = 0"
  by (simp add: set_py_range)

lemma in_odd_range: "x \<in> set (py_range 1 b 2) \<longleftrightarrow> 0 \<le> x \<and> x < b \<and> x mod 2 = 1"
proof -
  have "1 \<le> x \<and> x < b \<and> (x - 1) mod 2 = 0 \<longleftrightarrow> 0 \<le> x \<and> x < b \<and> x mod 2 = 1"
    by presburger
  then show ?thesis by (simp add: set_py_range)
qed

lemma set_cell_ls: "p \<in> set (cell_ls w h) \<longleftrightarrow> is_room w h p"
  by (cases p) (auto simp: cell_ls_product in_even_range is_room_def in_grid_def)

lemma set_not_care_ls: "p \<in> set (not_care_ls w h) \<longleftrightarrow> is_dot w h p"
  by (cases p) (auto simp: not_care_ls_product in_odd_range is_dot_def in_grid_def)

lemma set_wall_ls: "p \<in> set (wall_ls w h) \<longleftrightarrow> is_wall w h p"
proof (cases p)
  case (Pair x y)
  have "x mod 2 \<noteq> y mod 2 \<longleftrightarrow> (x mod 2 = 1 \<and> y mod 2 = 0) \<or> (x mod 2 = 0 \<and> y mod 2 = 1)"
    by presburger
  then show ?thesis unfolding Pair
    by (auto simp: wall_ls_product in_even_range in_odd_range is_wall_def in_grid_def)
qed

lemma distinct_cell_ls: "distinct (cell_ls w h)"
  by (simp add: cell_ls_product distinct_product distinct_py_range)

lemma distinct_not_care_ls: "distinct (not_care_ls w h)"
  by (simp add: not_care_ls_product distinct_product distinct_py_range)

lemma distinct_wall_ls: "distinct (wall_ls w h)"
proof -
  have "set (List.product (py_range 1 w 2) (py_range 0 h 2)) \<inter>
        set (List.product (py_range 0 w 2) (py_range 1 h 2)) = {}"
    by (auto simp: in_even_range in_odd_range)
  then show ?thesis
    unfolding wall_ls_product by (simp add: distinct_product distinct_py_range)
qed

lemma room_wall_dot_disjoint:
  "is_room w h p \<Longrightarrow> \<not> is_wall w h p"
  "is_room w h p \<Longrightarrow> \<not> is_dot w h p"
  "is_wall w h p \<Longrightarrow> \<not> is_dot w h p"
  by (auto simp: is_room_def is_wall_def is_dot_def)

lemma kinds_in_grid:
  "is_room w h p \<Longrightarrow> in_grid w h p"
  "is_wall w h p \<Longrightarrow> in_grid w h p"
  "is_dot w h p \<Longrightarrow> in_grid w h p"
  by (auto simp: is_room_def is_wall_def is_dot_def)

lemma ends_rooms:
  assumes "w mod 2 = 1" "h mod 2 = 1" "is_wall w h p"
  shows "is_room w h (fst (ends p))" "is_room w h (snd (ends p))"
proof -
  obtain x y where p: "p = (x, y)" by (cases p)
  have g: "0 \<le> x" "x < w" "0 \<le> y" "y < h" "x mod 2 \<noteq> y mod 2"
    using assms(3) by (simp_all add: p is_wall_def in_grid_def)
  show "is_room w h (fst (ends p))"
  proof (cases "x mod 2 = 1")
    case True
    then have "0 \<le> x - 1 \<and> x - 1 < w \<and> (x - 1) mod 2 = 0 \<and> y mod 2 = 0" using g by presburger
    then show ?thesis using True g by (simp add: p ends_def is_room_def in_grid_def)
  next
    case False
    then have "0 \<le> y - 1 \<and> y - 1 < h \<and> (y - 1) mod 2 = 0 \<and> x mod 2 = 0" using g by presburger
    then show ?thesis using False g by (simp add: p ends_def is_room_def in_grid_def)
  qed
  show "is_room w h (snd (ends p))"
  proof (cases "x mod 2 = 1")
    case True
    then have "0 \<le> x + 1 \<and> x + 1 < w \<and> (x + 1) mod 2 = 0 \<and> y mod 2 = 0"
      using g assms(1) by presburger
    then show ?thesis using True g by (simp add: p ends_def is_room_def in_grid_def)
  next
    case False
    then have "0 \<le> y + 1 \<and> y + 1 < h \<and> (y + 1) mod 2 = 0 \<and> x mod 2 = 0"
      using g assms(2) by presburger
    then show ?thesis using False g by (simp add: p ends_def is_room_def in_grid_def)
  qed
qed

section \<open>Writing to the grid\<close>

lemma norm_index_in: "0 \<le> i \<Longrightarrow> i < int n \<Longrightarrow> norm_index i n = Inr (nat i)"
  by (simp add: norm_index_def)

lemma grid_ok_row: "grid_ok w h g \<Longrightarrow> 0 \<le> x \<Longrightarrow> x < w \<Longrightarrow> length (g ! nat x) = nat h"
  by (simp add: grid_ok_def list_all_length)

lemma grid_set_ok:
  assumes g: "grid_ok w h g" and p: "in_grid w h (x, y)"
  shows "\<exists>g'. grid_set g x y v = Inr g' \<and> grid_ok w h g' \<and>
           (\<forall>q. in_grid w h q \<longrightarrow> cell g' q = (if q = (x, y) then v else cell g q))"
proof -
  have xy: "0 \<le> x" "x < w" "0 \<le> y" "y < h" using p by (simp_all add: in_grid_def)
  have lg: "length g = nat w" using g by (simp add: grid_ok_def)
  have lr: "length (g ! nat x) = nat h" using g xy by (simp add: grid_ok_row)
  let ?g' = "g[nat x := (g ! nat x)[nat y := v]]"
  have e: "grid_set g x y v = Inr ?g'"
    using xy lg lr by (simp add: grid_set_def norm_index_in)
  have ok: "grid_ok w h ?g'"
    unfolding grid_ok_def list_all_length
  proof (intro conjI allI impI)
    show "length ?g' = nat w" using lg by simp
    fix i assume "i < length ?g'"
    then have i: "i < length g" by simp
    then have "length (g ! i) = nat h" using g by (simp add: grid_ok_def list_all_length)
    then show "length (?g' ! i) = nat h" using i lr by (cases "i = nat x") simp_all
  qed
  have c: "cell ?g' q = (if q = (x, y) then v else cell g q)" if q: "in_grid w h q" for q
  proof -
    obtain a b where ab: "q = (a, b)" by (cases q)
    have q': "0 \<le> a" "a < w" "0 \<le> b" "b < h" using q by (simp_all add: ab in_grid_def)
    have na: "nat a = nat x \<longleftrightarrow> a = x" using q' xy by auto
    have nb: "nat y = nat b \<longleftrightarrow> b = y" using q' xy by auto
    have l: "nat a < length g" "nat x < length g" using q' xy lg by auto
    have ly: "nat y < length (g ! nat x)" using xy lr by auto
    show ?thesis
    proof (cases "a = x")
      case True
      have "?g' ! nat a = (g ! nat x)[nat y := v]" using l True by simp
      then have "cell ?g' q = (g ! nat x)[nat y := v] ! nat b" by (simp add: ab cell_def)
      also have "\<dots> = (if b = y then v else g ! nat x ! nat b)"
        using ly nb by (simp add: nth_list_update)
      finally show ?thesis using True by (simp add: ab cell_def)
    next
      case False
      then have "nat a \<noteq> nat x" using na by simp
      then have "?g' ! nat a = g ! nat a" by simp
      then show ?thesis using False by (simp add: ab cell_def)
    qed
  qed
  show ?thesis using e ok c by blast
qed

lemma clear_cells_ok:
  assumes "grid_ok w h g" "\<forall>p\<in>set ps. in_grid w h p"
  shows "\<exists>g'. clear_cells g ps = Inr g' \<and> grid_ok w h g' \<and>
           (\<forall>q. in_grid w h q \<longrightarrow> cell g' q = (if q \<in> set ps then 0 else cell g q))"
  using assms
proof (induction ps arbitrary: g)
  case Nil
  then show ?case by simp
next
  case (Cons p ps)
  obtain x y where p: "p = (x, y)" by (cases p)
  have "in_grid w h (x, y)" using Cons.prems(2) p by simp
  from grid_set_ok[OF Cons.prems(1) this, of 0] obtain g1 where
    g1: "grid_set g x y 0 = Inr g1" "grid_ok w h g1"
      "\<forall>q. in_grid w h q \<longrightarrow> cell g1 q = (if q = (x, y) then 0 else cell g q)"
    by blast
  have "\<forall>p\<in>set ps. in_grid w h p" using Cons.prems(2) by simp
  from Cons.IH[OF g1(2) this] obtain g' where
    g': "clear_cells g1 ps = Inr g'" "grid_ok w h g'"
      "\<forall>q. in_grid w h q \<longrightarrow> cell g' q = (if q \<in> set ps then 0 else cell g1 q)"
    by blast
  have "clear_cells g (p # ps) = Inr g'" using g1(1) g'(1) by (simp add: p)
  moreover have "\<forall>q. in_grid w h q \<longrightarrow> cell g' q = (if q \<in> set (p # ps) then 0 else cell g q)"
    using g1(3) g'(3) by (auto simp: p)
  ultimately show ?case using g'(2) by blast
qed

lemma ones_ok: "0 \<le> w \<Longrightarrow> 0 \<le> h \<Longrightarrow> grid_ok w h (ones w h)"
  by (simp add: grid_ok_def ones_def list_all_length)

lemma ones_cell: "in_grid w h p \<Longrightarrow> cell (ones w h) p = 1"
  by (simp add: cell_def ones_def in_grid_def)

lemma py_nth_in: "0 \<le> i \<Longrightarrow> i < int (length xs) \<Longrightarrow> py_nth xs i = Inr (xs ! nat i)"
  by (simp add: py_nth_def norm_index_in)

lemma open_dots_ok:
  assumes "grid_ok w h g" "\<forall>p\<in>set ncl. in_grid w h p" "\<forall>i\<in>set is. 0 \<le> i \<and> i < int (length ncl)"
  shows "\<exists>g'. open_dots g ncl is = Inr g' \<and> grid_ok w h g' \<and>
           (\<forall>q. in_grid w h q \<longrightarrow>
              cell g' q = (if q \<in> (\<lambda>i. ncl ! nat i) ` set is then 0 else cell g q))"
  using assms
proof (induction "is" arbitrary: g)
  case Nil
  then show ?case by simp
next
  case (Cons i "is")
  have i: "0 \<le> i" "i < int (length ncl)" using Cons.prems(3) by simp_all
  obtain x y where p: "ncl ! nat i = (x, y)" by (cases "ncl ! nat i")
  have "ncl ! nat i \<in> set ncl" using i by simp
  then have "in_grid w h (x, y)" using Cons.prems(2) p by auto
  from grid_set_ok[OF Cons.prems(1) this, of 0] obtain g1 where
    g1: "grid_set g x y 0 = Inr g1" "grid_ok w h g1"
      "\<forall>q. in_grid w h q \<longrightarrow> cell g1 q = (if q = (x, y) then 0 else cell g q)"
    by blast
  have "\<forall>i\<in>set is. 0 \<le> i \<and> i < int (length ncl)" using Cons.prems(3) by simp
  from Cons.IH[OF g1(2) Cons.prems(2) this] obtain g' where
    g': "open_dots g1 ncl is = Inr g'" "grid_ok w h g'"
      "\<forall>q. in_grid w h q \<longrightarrow>
          cell g' q = (if q \<in> (\<lambda>i. ncl ! nat i) ` set is then 0 else cell g1 q)"
    by blast
  have "open_dots g ncl (i # is) = Inr g'" using g1(1) g'(1) i p by (simp add: py_nth_in)
  moreover have "\<forall>q. in_grid w h q \<longrightarrow>
      cell g' q = (if q \<in> (\<lambda>i. ncl ! nat i) ` set (i # is) then 0 else cell g q)"
    using g1(3) g'(3) p by auto
  ultimately show ?case using g'(2) by blast
qed

section \<open>The coordinate adapter\<close>

lemma index_fold_other:
  "k' \<notin> key ` set ps \<Longrightarrow>
   fold (\<lambda>(i, p) m. m(key p \<mapsto> int i)) (enumerate k ps) m0 k' = m0 k'"
  by (induction ps arbitrary: k m0) auto

lemma index_fold_nth:
  "distinct (map key ps) \<Longrightarrow> i < length ps \<Longrightarrow>
   fold (\<lambda>(i, p) m. m(key p \<mapsto> int i)) (enumerate k ps) m0 (key (ps ! i)) = Some (int (k + i))"
proof (induction ps arbitrary: k m0 i)
  case Nil
  then show ?case by simp
next
  case (Cons p ps)
  let ?f = "\<lambda>(i, p) m. m(key p \<mapsto> int i)"
  have st: "fold ?f (enumerate k (p # ps)) m0 = fold ?f (enumerate (Suc k) ps) (m0(key p \<mapsto> int k))"
    by simp
  show ?case
  proof (cases i)
    case 0
    have "key p \<notin> key ` set ps" using Cons.prems(1) by auto
    then have "fold ?f (enumerate (Suc k) ps) (m0(key p \<mapsto> int k)) (key p)
        = (m0(key p \<mapsto> int k)) (key p)"
      by (rule index_fold_other)
    then show ?thesis unfolding st 0 by simp
  next
    case (Suc j)
    then have "j < length ps" using Cons.prems(2) by simp
    moreover have "distinct (map key ps)" using Cons.prems(1) by simp
    ultimately have "fold ?f (enumerate (Suc k) ps) (m0(key p \<mapsto> int k)) (key (ps ! j))
        = Some (int (Suc k + j))"
      by (rule Cons.IH[rotated])
    then show ?thesis unfolding st Suc by simp
  qed
qed

lemma idx_inj:
  assumes "in_grid w h p" "in_grid w h q" "fst p + snd p * w = fst q + snd q * w"
  shows "p = q"
proof -
  have a: "0 \<le> fst p" "fst p < w" "0 \<le> fst q" "fst q < w"
    using assms(1,2) by (simp_all add: in_grid_def)
  have "(fst p + snd p * w) mod w = fst p" using a by simp
  moreover have "(fst q + snd q * w) mod w = fst q" using a by simp
  ultimately have f: "fst p = fst q" using assms(3) by simp
  then have "snd p * w = snd q * w" using assms(3) by simp
  then have "snd p = snd q" using a by simp
  then show ?thesis using f by (simp add: prod_eq_iff)
qed

lemma distinct_idx_cell_ls: "distinct (map (\<lambda>p. fst p + snd p * w) (cell_ls w h))"
proof -
  have "inj_on (\<lambda>p. fst p + snd p * w) (set (cell_ls w h))"
  proof (rule inj_onI)
    fix p q assume "p \<in> set (cell_ls w h)" "q \<in> set (cell_ls w h)"
      and e: "fst p + snd p * w = fst q + snd q * w"
    then have "in_grid w h p" "in_grid w h q" by (simp_all add: set_cell_ls kinds_in_grid)
    then show "p = q" using e by (rule idx_inj)
  qed
  then show ?thesis using distinct_cell_ls by (simp add: distinct_map)
qed

lemma mcd_init_ok:
  assumes "0 \<le> w"
  shows "\<exists>c. mcd_init (cell_ls w h) w h = Inr c \<and> mcd_inv w h c \<and>
           dset c = init_state (int (length (cell_ls w h)))"
proof -
  let ?f = "\<lambda>(i, (x, y)) m. m(x + y * w \<mapsto> int i)"
  let ?c = "\<lparr>dwidth = w, dheight = h,
             index_map = fold ?f (enumerate 0 (cell_ls w h)) Map.empty,
             dset = init_state (int (length (cell_ls w h)))\<rparr>"
  have fe: "?f = (\<lambda>(i, p) m. m(fst p + snd p * w \<mapsto> int i))"
    by (auto simp: fun_eq_iff)
  have e: "mcd_init (cell_ls w h) w h = Inr ?c"
    by (simp add: mcd_init_def wqu_init_eq)
  have "\<forall>i < length (cell_ls w h).
        index_map ?c (fst (cell_ls w h ! i) + snd (cell_ls w h ! i) * w) = Some (int i)"
    using index_fold_nth[OF distinct_idx_cell_ls, of _ w h 0 Map.empty]
    unfolding fe by simp
  then have "mcd_inv w h ?c" by (simp add: mcd_inv_def init_inv)
  then show ?thesis using e by simp
qed

lemma cid_room:
  assumes i: "mcd_inv w h c" and p: "is_room w h p"
  shows "\<exists>i < length (cell_ls w h). cell_ls w h ! i = p \<and> cid c p = int i \<and>
           index_map c (fst p + snd p * dwidth c) = Some (int i)"
proof -
  have "p \<in> set (cell_ls w h)" using p by (simp add: set_cell_ls)
  then obtain k where k: "k < length (cell_ls w h)" "cell_ls w h ! k = p"
    by (auto simp: in_set_conv_nth)
  have "index_map c (fst p + snd p * dwidth c) = Some (int k)"
    using i k by (auto simp: mcd_inv_def)
  then show ?thesis using k by (auto simp: cid_def)
qed

lemma cid_range:
  assumes "mcd_inv w h c" "is_room w h p"
  shows "0 \<le> cid c p" "cid c p < int (length (cell_ls w h))"
  using cid_room[OF assms] by auto

lemma cid_lookup:
  assumes "mcd_inv w h c" "is_room w h p"
  shows "lookup (index_map c) (fst p + snd p * dwidth c) = Some (Inr (cid c p))"
  using cid_room[OF assms] by auto

lemma cid_inj:
  assumes "mcd_inv w h c" "is_room w h p" "is_room w h q" "cid c p = cid c q"
  shows "p = q"
  using cid_room[OF assms(1,2)] cid_room[OF assms(1,3)] assms(4) by auto

lemma cid_surj:
  assumes i: "mcd_inv w h c" and k: "0 \<le> k" "k < int (length (cell_ls w h))"
  shows "\<exists>p. is_room w h p \<and> cid c p = k"
proof -
  let ?p = "cell_ls w h ! nat k"
  have n: "nat k < length (cell_ls w h)" using k by simp
  then have "?p \<in> set (cell_ls w h)" by simp
  then have r: "is_room w h ?p" by (simp add: set_cell_ls)
  have "index_map c (fst ?p + snd ?p * dwidth c) = Some (int (nat k))"
    using i n by (auto simp: mcd_inv_def)
  then have "cid c ?p = k" using k by (simp add: cid_def)
  then show ?thesis using r by blast
qed

lemma mcd_inv_dset_update:
  "mcd_inv w h c \<Longrightarrow> dset_inv (int (length (cell_ls w h))) d \<Longrightarrow> mcd_inv w h (c\<lparr>dset := d\<rparr>)"
  by (simp add: mcd_inv_def)

lemma cid_dset_update [simp]: "cid (c\<lparr>dset := d\<rparr>) p = cid c p"
  by (simp add: cid_def)

lemma mcd_find_ok:
  assumes i: "mcd_inv w h c" and p: "is_room w h (x, y)"
  shows "\<exists>r. root_of (parent_map (dset c)) (cid c (x, y)) r \<and>
           mcd_find c x y = Some (Inr (c\<lparr>dset := compress_state (dset c) (cid c (x, y)) r\<rparr>, r))"
proof -
  let ?n = "int (length (cell_ls w h))"
  have di: "dset_inv ?n (dset c)" using i by (simp add: mcd_inv_def)
  obtain r where r: "root_of (parent_map (dset c)) (cid c (x, y)) r"
    using inv_has_root[OF di cid_range[OF i p]] by blast
  have "mcd_find c x y = Some (Inr (c\<lparr>dset := compress_state (dset c) (cid c (x, y)) r\<rparr>, r))"
    using cid_lookup[OF i p] by (simp add: mcd_find_def wqu_find_eq[OF r])
  then show ?thesis using r by blast
qed

lemma mcd_is_connected_ok:
  assumes i: "mcd_inv w h c" and a: "is_room w h (x1, y1)" and b: "is_room w h (x2, y2)"
  shows "\<exists>c'. mcd_is_connected c x1 y1 x2 y2 =
                 Some (Inr (c', same_set (dset c) (cid c (x1, y1)) (cid c (x2, y2)))) \<and>
           mcd_inv w h c' \<and> count' (dset c') = count' (dset c) \<and>
           index_map c' = index_map c \<and> dwidth c' = dwidth c \<and>
           (\<forall>u v. same_set (dset c') u v \<longleftrightarrow> same_set (dset c) u v)"
proof -
  let ?n = "int (length (cell_ls w h))"
  have di: "dset_inv ?n (dset c)" using i by (simp add: mcd_inv_def)
  obtain r1 where r1: "root_of (parent_map (dset c)) (cid c (x1, y1)) r1"
      "mcd_find c x1 y1 = Some (Inr (c\<lparr>dset := compress_state (dset c) (cid c (x1, y1)) r1\<rparr>, r1))"
    using mcd_find_ok[OF i a] by blast
  let ?c1 = "c\<lparr>dset := compress_state (dset c) (cid c (x1, y1)) r1\<rparr>"
  have di1: "dset_inv ?n (dset ?c1)" using compress_state_inv[OF di r1(1)] by simp
  have i1: "mcd_inv w h ?c1" using i di1 by (simp add: mcd_inv_def)
  obtain r2 where r2: "root_of (parent_map (dset ?c1)) (cid ?c1 (x2, y2)) r2"
      "mcd_find ?c1 x2 y2 = Some (Inr (?c1\<lparr>dset := compress_state (dset ?c1) (cid ?c1 (x2, y2)) r2\<rparr>, r2))"
    using mcd_find_ok[OF i1 b] by blast
  let ?c2 = "?c1\<lparr>dset := compress_state (dset ?c1) (cid ?c1 (x2, y2)) r2\<rparr>"
  have di2: "dset_inv ?n (dset ?c2)" using compress_state_inv[OF di1 r2(1)] by simp
  have i2: "mcd_inv w h ?c2" using i di2 by (simp add: mcd_inv_def)
  have r2': "root_of (parent_map (dset c)) (cid c (x2, y2)) r2"
    using r2(1) by (simp add: compress_state_root_of[OF di r1(1)])
  have ans: "same_set (dset c) (cid c (x1, y1)) (cid c (x2, y2)) \<longleftrightarrow> r1 = r2"
    using r1(1) r2' by (rule same_set_roots)
  have e: "mcd_is_connected c x1 y1 x2 y2 = Some (Inr (?c2, r1 = r2))"
    by (simp add: mcd_is_connected_def r1(2) r2(2))
  have ss: "\<forall>u v. same_set (dset ?c2) u v \<longleftrightarrow> same_set (dset c) u v"
    using compress_state_same_set[OF di1 r2(1)] compress_state_same_set[OF di r1(1)] by simp
  show ?thesis using e ans i2 ss by (intro exI[of _ ?c2]) simp
qed

lemma mcd_union_ok:
  assumes i: "mcd_inv w h c" and a: "is_room w h (x1, y1)" and b: "is_room w h (x2, y2)"
  shows "\<exists>c'. mcd_union c x1 y1 x2 y2 = Some (Inr c') \<and> mcd_inv w h c' \<and>
           index_map c' = index_map c \<and> dwidth c' = dwidth c \<and>
           count' (dset c') =
             (if same_set (dset c) (cid c (x1, y1)) (cid c (x2, y2)) then count' (dset c)
              else count' (dset c) - 1) \<and>
           (\<forall>u v. same_set (dset c') u v \<longleftrightarrow>
              same_set (dset c) u v \<or>
              (same_set (dset c) u (cid c (x1, y1)) \<and> same_set (dset c) (cid c (x2, y2)) v) \<or>
              (same_set (dset c) u (cid c (x2, y2)) \<and> same_set (dset c) (cid c (x1, y1)) v))"
proof -
  let ?n = "int (length (cell_ls w h))"
  have di: "dset_inv ?n (dset c)" using i by (simp add: mcd_inv_def)
  obtain d where d: "wqu_union (dset c) (cid c (x1, y1)) (cid c (x2, y2)) = Some (Inr d)"
      "dset_inv ?n d"
      "count' d = (if same_set (dset c) (cid c (x1, y1)) (cid c (x2, y2)) then count' (dset c)
              else count' (dset c) - 1)"
      "\<forall>u v. same_set d u v \<longleftrightarrow>
              same_set (dset c) u v \<or>
              (same_set (dset c) u (cid c (x1, y1)) \<and> same_set (dset c) (cid c (x2, y2)) v) \<or>
              (same_set (dset c) u (cid c (x2, y2)) \<and> same_set (dset c) (cid c (x1, y1)) v)"
    using union_ok[OF di cid_range[OF i a] cid_range[OF i b]] by blast
  have e: "mcd_union c x1 y1 x2 y2 = Some (Inr (c\<lparr>dset := d\<rparr>))"
    using cid_lookup[OF i a] cid_lookup[OF i b] d(1) by (simp add: mcd_union_def)
  have "mcd_inv w h (c\<lparr>dset := d\<rparr>)" using i d(2) by (rule mcd_inv_dset_update)
  then show ?thesis using e d(3,4) by (intro exI[of _ "c\<lparr>dset := d\<rparr>"]) simp
qed

section \<open>One step of the carving loop\<close>

lemma maze_edges_eq: "maze_edges w h g = ends ` {p. is_wall w h p \<and> cell g p = 0}"
  by (auto simp: maze_edges_def open_walls_def set_wall_ls)

lemma length_open_walls: "length (open_walls w h g) = card {p. is_wall w h p \<and> cell g p = 0}"
proof -
  have "distinct (open_walls w h g)" by (simp add: open_walls_def distinct_wall_ls)
  then have "length (open_walls w h g) = card (set (open_walls w h g))"
    by (simp add: distinct_card)
  moreover have "set (open_walls w h g) = {p. is_wall w h p \<and> cell g p = 0}"
    by (auto simp: open_walls_def set_wall_ls)
  ultimately show ?thesis by simp
qed

lemma finite_walls: "finite {p. is_wall w h p \<and> P p}"
proof -
  have "{p. is_wall w h p \<and> P p} \<subseteq> set (wall_ls w h)" by (auto simp: set_wall_ls)
  then show ?thesis by (rule finite_subset) simp
qed

lemma walls_same:
  assumes "\<forall>p. is_wall w h p \<longrightarrow> cell g' p = cell g p"
  shows "open_walls w h g' = open_walls w h g" "maze_edges w h g' = maze_edges w h g"
proof -
  show "open_walls w h g' = open_walls w h g"
    unfolding open_walls_def using assms by (intro filter_cong) (auto simp: set_wall_ls)
  then show "maze_edges w h g' = maze_edges w h g" by (simp add: maze_edges_def)
qed

lemma walls_opened:
  assumes xy: "is_wall w h xy" and c: "cell g xy \<noteq> 0"
    and u: "\<forall>q. in_grid w h q \<longrightarrow> cell g' q = (if q = xy then 0 else cell g q)"
  shows "maze_edges w h g' = insert (ends xy) (maze_edges w h g)"
    and "length (open_walls w h g') = length (open_walls w h g) + 1"
proof -
  have s: "{p. is_wall w h p \<and> cell g' p = 0} = insert xy {p. is_wall w h p \<and> cell g p = 0}"
    using xy u by (auto simp: kinds_in_grid)
  show "maze_edges w h g' = insert (ends xy) (maze_edges w h g)"
    unfolding maze_edges_eq s by simp
  have "xy \<notin> {p. is_wall w h p \<and> cell g p = 0}" using c by simp
  then show "length (open_walls w h g') = length (open_walls w h g) + 1"
    unfolding length_open_walls s using finite_walls[of w h "\<lambda>p. cell g p = 0"] by simp
qed

lemma cid_cong: "index_map c' = index_map c \<Longrightarrow> dwidth c' = dwidth c \<Longrightarrow> cid c' p = cid c p"
  by (simp add: cid_def)

lemma carve_inv_keep:
  assumes inv: "carve_inv w h g c seen"
    and c1: "mcd_inv w h c1" "count' (dset c1) = count' (dset c)"
      "index_map c1 = index_map c" "dwidth c1 = dwidth c"
      "\<forall>u v. same_set (dset c1) u v \<longleftrightarrow> same_set (dset c) u v"
    and xy: "is_wall w h xy" "ends xy \<in> component (maze_edges w h g)"
  shows "carve_inv w h g c1 (xy # seen)"
proof -
  have ci: "\<And>p. cid c1 p = cid c p" using c1(3,4) by (rule cid_cong)
  show ?thesis
    using inv xy c1(1,2) unfolding carve_inv_def ci c1(5)[rule_format] by auto
qed

lemma carve_inv_open:
  assumes od: "w mod 2 = 1" "h mod 2 = 1"
    and inv: "carve_inv w h g c seen"
    and xy: "is_wall w h xy" "xy \<notin> set seen"
    and uv: "ends xy = (u, v)"
    and nc: "(u, v) \<notin> component (maze_edges w h g)"
    and c2: "mcd_inv w h c2" "index_map c2 = index_map c" "dwidth c2 = dwidth c"
      "count' (dset c2) = count' (dset c) - 1"
      "\<forall>a b. same_set (dset c2) a b \<longleftrightarrow>
          same_set (dset c) a b \<or>
          (same_set (dset c) a (cid c u) \<and> same_set (dset c) (cid c v) b) \<or>
          (same_set (dset c) a (cid c v) \<and> same_set (dset c) (cid c u) b)"
    and g': "grid_ok w h g'"
      "\<forall>q. in_grid w h q \<longrightarrow> cell g' q = (if q = xy then 0 else cell g q)"
  shows "carve_inv w h g' c2 (xy # seen)"
proof -
  let ?E = "maze_edges w h g"
  have i: "\<forall>p. in_grid w h p \<longrightarrow> cell g p = 0 \<or> cell g p = 1"
      "\<forall>p. is_room w h p \<longrightarrow> cell g p = 0"
      "\<forall>p. is_dot w h p \<longrightarrow> cell g p = 1"
      "\<forall>p. is_wall w h p \<longrightarrow> cell g p = 0 \<longrightarrow> p \<in> set seen"
      "\<forall>p\<in>set seen. is_wall w h p \<and> ends p \<in> component ?E"
      "\<forall>a b. is_room w h a \<longrightarrow> is_room w h b \<longrightarrow>
        (same_set (dset c) (cid c a) (cid c b) \<longleftrightarrow> (a, b) \<in> component ?E)"
      "forest ?E"
      "count' (dset c) = int (length (cell_ls w h)) - int (length (open_walls w h g))"
    using inv unfolding carve_inv_def by blast+
  have closed: "cell g xy \<noteq> 0" using i(4) xy by blast
  have E': "maze_edges w h g' = insert (u, v) ?E"
    using walls_opened(1)[OF xy(1) closed g'(2)] uv by simp
  have len: "length (open_walls w h g') = length (open_walls w h g) + 1"
    using walls_opened(2)[OF xy(1) closed g'(2)] .
  have ru: "is_room w h u" and rv: "is_room w h v"
    using ends_rooms[OF od xy(1)] uv by simp_all
  have ci: "\<And>p. cid c2 p = cid c p" using c2(2,3) by (rule cid_cong)
  have upd: "\<And>q. in_grid w h q \<Longrightarrow> cell g' q = (if q = xy then 0 else cell g q)"
    using g'(2) by blast
  have v1: "\<forall>p. in_grid w h p \<longrightarrow> cell g' p = 0 \<or> cell g' p = 1"
  proof (intro allI impI)
    fix p assume p: "in_grid w h p"
    then have "cell g p = 0 \<or> cell g p = 1" using i(1) by blast
    then show "cell g' p = 0 \<or> cell g' p = 1" using upd[OF p] by auto
  qed
  have v2: "\<forall>p. is_room w h p \<longrightarrow> cell g' p = 0"
  proof (intro allI impI)
    fix p assume p: "is_room w h p"
    then have "cell g p = 0" using i(2) by blast
    then show "cell g' p = 0" using upd[OF kinds_in_grid(1)[OF p]] by auto
  qed
  have v3: "\<forall>p. is_dot w h p \<longrightarrow> cell g' p = 1"
  proof (intro allI impI)
    fix p assume p: "is_dot w h p"
    then have "p \<noteq> xy" using xy(1) room_wall_dot_disjoint(3) by blast
    moreover have "cell g p = 1" using i(3) p by blast
    ultimately show "cell g' p = 1" using upd[OF kinds_in_grid(3)[OF p]] by simp
  qed
  have v4: "\<forall>p. is_wall w h p \<longrightarrow> cell g' p = 0 \<longrightarrow> p \<in> set (xy # seen)"
  proof (intro allI impI)
    fix p assume p: "is_wall w h p" "cell g' p = 0"
    show "p \<in> set (xy # seen)"
    proof (cases "p = xy")
      case True
      then show ?thesis by simp
    next
      case False
      then have "cell g p = 0" using upd[OF kinds_in_grid(2)[OF p(1)]] p(2) by simp
      then have "p \<in> set seen" using i(4) p(1) by blast
      then show ?thesis by simp
    qed
  qed
  have mono: "\<And>a b. (a, b) \<in> component ?E \<Longrightarrow> (a, b) \<in> component (insert (u, v) ?E)"
    by (rule component_mono[of ?E]) auto
  have v5: "\<forall>p\<in>set (xy # seen). is_wall w h p \<and> ends p \<in> component (maze_edges w h g')"
  proof
    fix p assume p: "p \<in> set (xy # seen)"
    show "is_wall w h p \<and> ends p \<in> component (maze_edges w h g')"
    proof (cases "p = xy")
      case True
      have "(u, v) \<in> component (insert (u, v) ?E)" by (rule component_edge) simp
      then show ?thesis using True xy(1) uv E' by simp
    next
      case False
      then have ps: "p \<in> set seen" using p by simp
      then have "ends p \<in> component ?E" using i(5) by blast
      then have "ends p \<in> component (insert (u, v) ?E)" using mono[of "fst (ends p)" "snd (ends p)"] by simp
      then show ?thesis using ps i(5) E' by simp
    qed
  qed
  have v6: "\<forall>a b. is_room w h a \<longrightarrow> is_room w h b \<longrightarrow>
        (same_set (dset c2) (cid c2 a) (cid c2 b) \<longleftrightarrow> (a, b) \<in> component (maze_edges w h g'))"
  proof (intro allI impI)
    fix a b assume ab: "is_room w h a" "is_room w h b"
    have r: "\<And>x y. is_room w h x \<Longrightarrow> is_room w h y \<Longrightarrow>
        same_set (dset c) (cid c x) (cid c y) \<longleftrightarrow> (x, y) \<in> component ?E"
      using i(6) by blast
    show "same_set (dset c2) (cid c2 a) (cid c2 b) \<longleftrightarrow> (a, b) \<in> component (maze_edges w h g')"
      unfolding ci E' c2(5)[rule_format] component_insert
        r[OF ab] r[OF ab(1) ru] r[OF ab(1) rv] r[OF rv ab(2)] r[OF ru ab(2)]
      by blast
  qed
  have v7: "forest (maze_edges w h g')" unfolding E' using i(7) nc by (rule forest_insert)
  have v8: "count' (dset c2) = int (length (cell_ls w h)) - int (length (open_walls w h g'))"
    using c2(4) i(8) len by simp
  show ?thesis
    unfolding carve_inv_def using g'(1) c2(1) v1 v2 v3 v4 v5 v6 v7 v8 by blast
qed

lemma carve_step_eq:
  assumes "ends (x, y) = ((ux, uy), (vx, vy))"
  shows "carve_step g c (x, y) =
     rbind (mcd_is_connected c ux uy vx vy) (\<lambda>(c1, b).
       if \<not> b then
         (if x mod 2 = 1 then
            rbind (mcd_union c1 ux uy vx vy) (\<lambda>c2.
            rbind (lift (grid_set g x y 0)) (\<lambda>g'. Some (Inr (g', c2))))
          else
            rbind (lift (grid_set g x y 0)) (\<lambda>g'.
            rbind (mcd_union c1 ux uy vx vy) (\<lambda>c2. Some (Inr (g', c2)))))
       else Some (Inr (g, c1)))"
proof (cases "x mod 2 = 1")
  case True
  then have "ux = x - 1" "uy = y" "vx = x + 1" "vy = y" using assms by (simp_all add: ends_def)
  then show ?thesis using True by (simp add: carve_step_def cong: if_cong)
next
  case False
  then have "ux = x" "uy = y - 1" "vx = x" "vy = y + 1" using assms by (simp_all add: ends_def)
  then show ?thesis using False by (simp add: carve_step_def cong: if_cong)
qed

lemma carve_step_ok:
  assumes od: "w mod 2 = 1" "h mod 2 = 1"
    and inv: "carve_inv w h g c seen"
    and xy: "is_wall w h xy" "xy \<notin> set seen"
  shows "\<exists>g' c'. carve_step g c xy = Some (Inr (g', c')) \<and> carve_inv w h g' c' (xy # seen) \<and>
           grid_ok w h g' \<and>
           (\<forall>q. in_grid w h q \<longrightarrow> cell g' q = cell g q \<or> (cell g q = 1 \<and> cell g' q = 0))"
proof -
  obtain x y where p: "xy = (x, y)" by (cases xy)
  obtain ux uy vx vy where e: "ends (x, y) = ((ux, uy), (vx, vy))"
    by (metis surj_pair)
  let ?u = "(ux, uy)" and ?v = "(vx, vy)"
  let ?E = "maze_edges w h g"
  have ru: "is_room w h ?u" and rv: "is_room w h ?v"
    using ends_rooms[OF od xy(1)] e p by simp_all
  have mi: "mcd_inv w h c" and go: "grid_ok w h g"
    and vals: "\<forall>p. in_grid w h p \<longrightarrow> cell g p = 0 \<or> cell g p = 1"
    and op: "\<forall>p. is_wall w h p \<longrightarrow> cell g p = 0 \<longrightarrow> p \<in> set seen"
    and rel: "\<forall>a b. is_room w h a \<longrightarrow> is_room w h b \<longrightarrow>
        (same_set (dset c) (cid c a) (cid c b) \<longleftrightarrow> (a, b) \<in> component ?E)"
    using inv unfolding carve_inv_def by blast+
  obtain c1 where c1:
      "mcd_is_connected c ux uy vx vy = Some (Inr (c1, same_set (dset c) (cid c ?u) (cid c ?v)))"
      "mcd_inv w h c1" "count' (dset c1) = count' (dset c)"
      "index_map c1 = index_map c" "dwidth c1 = dwidth c"
      "\<forall>a b. same_set (dset c1) a b \<longleftrightarrow> same_set (dset c) a b"
    using mcd_is_connected_ok[OF mi ru rv] by blast
  have ans: "same_set (dset c) (cid c ?u) (cid c ?v) \<longleftrightarrow> (?u, ?v) \<in> component ?E"
    using rel ru rv by blast
  show ?thesis
  proof (cases "(?u, ?v) \<in> component ?E")
    case True
    have "carve_step g c xy = Some (Inr (g, c1))"
      unfolding p carve_step_eq[OF e] c1(1) using True ans by simp
    moreover have "carve_inv w h g c1 (xy # seen)"
      using inv c1(2-6) xy(1) by (rule carve_inv_keep) (simp add: p e True)
    ultimately show ?thesis using go by blast
  next
    case False
    have ci: "\<And>q. cid c1 q = cid c q" using c1(4,5) by (rule cid_cong)
    obtain c2 where c2: "mcd_union c1 ux uy vx vy = Some (Inr c2)" "mcd_inv w h c2"
        "index_map c2 = index_map c1" "dwidth c2 = dwidth c1"
        "count' (dset c2) =
             (if same_set (dset c1) (cid c1 ?u) (cid c1 ?v) then count' (dset c1)
              else count' (dset c1) - 1)"
        "\<forall>a b. same_set (dset c2) a b \<longleftrightarrow>
              same_set (dset c1) a b \<or>
              (same_set (dset c1) a (cid c1 ?u) \<and> same_set (dset c1) (cid c1 ?v) b) \<or>
              (same_set (dset c1) a (cid c1 ?v) \<and> same_set (dset c1) (cid c1 ?u) b)"
      using mcd_union_ok[OF c1(2) ru rv] by blast
    have cnt: "count' (dset c2) = count' (dset c) - 1"
      using c2(5) False ans c1(3) unfolding ci c1(6)[rule_format] by simp
    have rel2: "\<forall>a b. same_set (dset c2) a b \<longleftrightarrow>
          same_set (dset c) a b \<or>
          (same_set (dset c) a (cid c ?u) \<and> same_set (dset c) (cid c ?v) b) \<or>
          (same_set (dset c) a (cid c ?v) \<and> same_set (dset c) (cid c ?u) b)"
      using c2(6) unfolding ci c1(6)[rule_format] .
    have ig: "in_grid w h (x, y)" using xy(1) p kinds_in_grid(2) by blast
    obtain g' where g': "grid_set g x y 0 = Inr g'" "grid_ok w h g'"
        "\<forall>q. in_grid w h q \<longrightarrow> cell g' q = (if q = (x, y) then 0 else cell g q)"
      using grid_set_ok[OF go ig, of 0] by blast
    have "carve_step g c xy = Some (Inr (g', c2))"
      unfolding p carve_step_eq[OF e] c1(1) using False ans c2(1) g'(1) by (simp add: lift_def)
    moreover have "carve_inv w h g' c2 (xy # seen)"
      using od inv xy _ False c2(2) _ _ cnt rel2 g'(2)
    proof (rule carve_inv_open)
      show "ends xy = (?u, ?v)" by (simp add: p e)
      show "index_map c2 = index_map c" using c2(3) c1(4) by simp
      show "dwidth c2 = dwidth c" using c2(4) c1(5) by simp
      show "\<forall>q. in_grid w h q \<longrightarrow> cell g' q = (if q = xy then 0 else cell g q)"
        using g'(3) by (simp add: p)
    qed
    moreover have "\<forall>q. in_grid w h q \<longrightarrow> cell g' q = cell g q \<or> (cell g q = 1 \<and> cell g' q = 0)"
    proof (intro allI impI)
      fix q assume q: "in_grid w h q"
      have "cell g xy \<noteq> 0" using op xy by blast
      moreover have "cell g xy = 0 \<or> cell g xy = 1" using vals ig p by blast
      ultimately have "cell g xy = 1" by simp
      moreover have "cell g' q = (if q = xy then 0 else cell g q)" using g'(3) q p by blast
      ultimately show "cell g' q = cell g q \<or> (cell g q = 1 \<and> cell g' q = 0)"
        by auto
    qed
    ultimately show ?thesis using g'(2) by blast
  qed
qed

section \<open>The carving loop\<close>

lemma carve_ok:
  assumes od: "w mod 2 = 1" "h mod 2 = 1"
    and "carve_inv w h g c seen" "distinct ws" "\<forall>p\<in>set ws. is_wall w h p"
      "set ws \<inter> set seen = {}"
  shows "\<exists>g' c' seen'. carve g c ws = Some (Inr (g', c')) \<and> carve_inv w h g' c' seen' \<and>
           (mcd_count c' = 1 \<or> set seen' = set seen \<union> set ws) \<and>
           (\<forall>q. in_grid w h q \<longrightarrow> cell g' q = cell g q \<or> (cell g q = 1 \<and> cell g' q = 0))"
  using assms(3-)
proof (induction ws arbitrary: g c seen)
  case Nil
  then show ?case by (intro exI[of _ g] exI[of _ c] exI[of _ seen]) simp
next
  case (Cons xy ws)
  show ?case
  proof (cases "mcd_count c = 1")
    case True
    then have "carve g c (xy # ws) = Some (Inr (g, c))" by simp
    then show ?thesis using True Cons.prems(1)
      by (intro exI[of _ g] exI[of _ c] exI[of _ seen]) simp
  next
    case False
    have xy: "is_wall w h xy" "xy \<notin> set seen" using Cons.prems(3,4) by auto
    obtain g1 c1 where s1: "carve_step g c xy = Some (Inr (g1, c1))"
        "carve_inv w h g1 c1 (xy # seen)"
        "\<forall>q. in_grid w h q \<longrightarrow> cell g1 q = cell g q \<or> (cell g q = 1 \<and> cell g1 q = 0)"
      using carve_step_ok[OF od Cons.prems(1) xy] by blast
    have d: "distinct ws" "\<forall>p\<in>set ws. is_wall w h p" "set ws \<inter> set (xy # seen) = {}"
      using Cons.prems(2,3,4) by auto
    obtain g' c' seen' where s': "carve g1 c1 ws = Some (Inr (g', c'))"
        "carve_inv w h g' c' seen'"
        "mcd_count c' = 1 \<or> set seen' = set (xy # seen) \<union> set ws"
        "\<forall>q. in_grid w h q \<longrightarrow> cell g' q = cell g1 q \<or> (cell g1 q = 1 \<and> cell g' q = 0)"
      using Cons.IH[OF s1(2) d] by blast
    have e: "carve g c (xy # ws) = Some (Inr (g', c'))" using False s1(1) s'(1) by simp
    have m: "\<forall>q. in_grid w h q \<longrightarrow> cell g' q = cell g q \<or> (cell g q = 1 \<and> cell g' q = 0)"
    proof (intro allI impI)
      fix q assume q: "in_grid w h q"
      have "cell g1 q = cell g q \<or> (cell g q = 1 \<and> cell g1 q = 0)" using s1(3) q by blast
      moreover have "cell g' q = cell g1 q \<or> (cell g1 q = 1 \<and> cell g' q = 0)" using s'(4) q by blast
      ultimately show "cell g' q = cell g q \<or> (cell g q = 1 \<and> cell g' q = 0)" by auto
    qed
    have "mcd_count c' = 1 \<or> set seen' = set seen \<union> set (xy # ws)" using s'(3) by auto
    then show ?thesis using e s'(2) m by blast
  qed
qed

lemma rooms_connected:
  assumes od: "w mod 2 = 1" "h mod 2 = 1"
    and all: "\<forall>p. is_wall w h p \<longrightarrow> ends p \<in> component E"
  shows "is_room w h a \<Longrightarrow> ((0, 0), a) \<in> component E"
proof (induction "nat (fst a + snd a)" arbitrary: a rule: less_induct)
  case less
  obtain x y where a: "a = (x, y)" by (cases a)
  have r: "0 \<le> x" "x < w" "0 \<le> y" "y < h" "x mod 2 = 0" "y mod 2 = 0"
    using less.prems by (simp_all add: a is_room_def in_grid_def)
  show ?case
  proof (cases "2 \<le> x")
    case True
    have wl: "is_wall w h (x - 1, y)"
      using r True unfolding is_wall_def in_grid_def fst_conv snd_conv by presburger
    have "(x - 1) mod 2 = 1" using r by presburger
    then have e: "ends (x - 1, y) = ((x - 2, y), (x, y))" by (simp add: ends_def)
    have "is_room w h (x - 2, y)"
      using r True unfolding is_room_def in_grid_def fst_conv snd_conv by presburger
    moreover have "nat (fst (x - 2, y) + snd (x - 2, y)) < nat (fst a + snd a)"
      using r True by (simp add: a)
    ultimately have "((0, 0), (x - 2, y)) \<in> component E" using less.hyps by blast
    moreover have "((x - 2, y), (x, y)) \<in> component E" using all wl e by metis
    ultimately show ?thesis unfolding a by (rule component_trans)
  next
    case x0: False
    then have x: "x = 0" using r by presburger
    show ?thesis
    proof (cases "2 \<le> y")
      case True
      have wl: "is_wall w h (x, y - 1)"
        using r True unfolding is_wall_def in_grid_def fst_conv snd_conv by presburger
      have "x mod 2 \<noteq> 1" using r by presburger
      then have e: "ends (x, y - 1) = ((x, y - 2), (x, y))" by (simp add: ends_def)
      have "is_room w h (x, y - 2)"
        using r True unfolding is_room_def in_grid_def fst_conv snd_conv by presburger
      moreover have "nat (fst (x, y - 2) + snd (x, y - 2)) < nat (fst a + snd a)"
        using r True by (simp add: a)
      ultimately have "((0, 0), (x, y - 2)) \<in> component E" using less.hyps by blast
      moreover have "((x, y - 2), (x, y)) \<in> component E" using all wl e by metis
      ultimately show ?thesis unfolding a by (rule component_trans)
    next
      case False
      then have "y = 0" using r by presburger
      then show ?thesis using x by (simp add: a component_refl)
    qed
  qed
qed

lemma all_rooms_connected:
  assumes od: "w mod 2 = 1" "h mod 2 = 1"
    and all: "\<forall>p. is_wall w h p \<longrightarrow> ends p \<in> component E"
    and a: "is_room w h a" and b: "is_room w h b"
  shows "(a, b) \<in> component E"
proof -
  have "((0, 0), a) \<in> component E" using od all a by (rule rooms_connected)
  then have "(a, (0, 0)) \<in> component E" by (rule component_sym)
  moreover have "((0, 0), b) \<in> component E" using od all b by (rule rooms_connected)
  ultimately show ?thesis by (rule component_trans)
qed

lemma origin_room: "0 < w \<Longrightarrow> 0 < h \<Longrightarrow> is_room w h (0, 0)"
  by (simp add: is_room_def in_grid_def)

lemma count_one_if_connected:
  assumes inv: "carve_inv w h g c seen" and pos: "0 < w" "0 < h"
    and conn: "\<forall>a b. is_room w h a \<longrightarrow> is_room w h b \<longrightarrow> (a, b) \<in> component (maze_edges w h g)"
  shows "mcd_count c = 1"
proof -
  let ?n = "int (length (cell_ls w h))"
  have mi: "mcd_inv w h c"
    and rel: "\<forall>a b. is_room w h a \<longrightarrow> is_room w h b \<longrightarrow>
        (same_set (dset c) (cid c a) (cid c b) \<longleftrightarrow> (a, b) \<in> component (maze_edges w h g))"
    using inv unfolding carve_inv_def by blast+
  have di: "dset_inv ?n (dset c)" using mi by (simp add: mcd_inv_def)
  have "(0, 0) \<in> set (cell_ls w h)" using origin_room[OF pos] by (simp add: set_cell_ls)
  then have n1: "1 \<le> ?n" by (cases "cell_ls w h") simp_all
  have eq: "r = r'" if r: "r \<in> roots (dset c)" "r' \<in> roots (dset c)" for r r'
  proof -
    obtain a where a: "is_room w h a" "cid c a = r"
      using cid_surj[OF mi] roots_in_range[OF di r(1)] by blast
    obtain b where b: "is_room w h b" "cid c b = r'"
      using cid_surj[OF mi] roots_in_range[OF di r(2)] by blast
    have "same_set (dset c) r r'" using rel conn a b by blast
    moreover have "root_of (parent_map (dset c)) r r" "root_of (parent_map (dset c)) r' r'"
      using r by (simp_all add: roots_def root_self)
    ultimately show "r = r'" by (simp add: same_set_roots)
  qed
  have "1 \<le> count' (dset c)" using di n1 by (rule inv_count_pos)
  then have "card (roots (dset c)) \<noteq> 0" using di by (simp add: dset_inv_def)
  then obtain r where r: "r \<in> roots (dset c)" by (metis card.empty equals0I)
  then have "roots (dset c) = {r}" using eq by blast
  then have "card (roots (dset c)) = 1" by simp
  then show ?thesis using di by (simp add: mcd_count_def wqu_count_def dset_inv_def)
qed

lemma connected_if_count_one:
  assumes inv: "carve_inv w h g c seen" and c1: "mcd_count c = 1"
    and a: "is_room w h a" and b: "is_room w h b"
  shows "(a, b) \<in> component (maze_edges w h g)"
proof -
  let ?n = "int (length (cell_ls w h))"
  have mi: "mcd_inv w h c"
    and rel: "\<forall>a b. is_room w h a \<longrightarrow> is_room w h b \<longrightarrow>
        (same_set (dset c) (cid c a) (cid c b) \<longleftrightarrow> (a, b) \<in> component (maze_edges w h g))"
    using inv unfolding carve_inv_def by blast+
  have di: "dset_inv ?n (dset c)" using mi by (simp add: mcd_inv_def)
  have "card (roots (dset c)) = 1"
    using c1 di by (simp add: mcd_count_def wqu_count_def dset_inv_def)
  then obtain r0 where r0: "roots (dset c) = {r0}" by (auto simp: card_1_singleton_iff)
  obtain ra where ra: "root_of (parent_map (dset c)) (cid c a) ra"
    using inv_has_root[OF di cid_range[OF mi a]] by blast
  obtain rb where rb: "root_of (parent_map (dset c)) (cid c b) rb"
    using inv_has_root[OF di cid_range[OF mi b]] by blast
  have "ra \<in> roots (dset c)" "rb \<in> roots (dset c)"
    using ra rb by (simp_all add: root_of_root_in_roots)
  then have "ra = rb" using r0 by simp
  then have "same_set (dset c) (cid c a) (cid c b)" using ra rb by (simp add: same_set_roots)
  then show ?thesis using rel a b by blast
qed

lemma carve_complete:
  assumes od: "w mod 2 = 1" "h mod 2 = 1" and pos: "0 < w" "0 < h"
    and inv: "carve_inv w h g c seen"
    and fin: "mcd_count c = 1 \<or> (\<forall>p. is_wall w h p \<longrightarrow> p \<in> set seen)"
  shows "mcd_count c = 1"
proof (cases "mcd_count c = 1")
  case True
  then show ?thesis .
next
  case False
  then have all: "\<forall>p. is_wall w h p \<longrightarrow> p \<in> set seen" using fin by simp
  have "\<forall>p\<in>set seen. is_wall w h p \<and> ends p \<in> component (maze_edges w h g)"
    using inv unfolding carve_inv_def by blast
  then have "\<forall>p. is_wall w h p \<longrightarrow> ends p \<in> component (maze_edges w h g)"
    using all by blast
  then have "\<forall>a b. is_room w h a \<longrightarrow> is_room w h b \<longrightarrow> (a, b) \<in> component (maze_edges w h g)"
    using all_rooms_connected[OF od] by blast
  then show ?thesis using inv pos by (intro count_one_if_connected)
qed

section \<open>The first phase and the cosmetic pass\<close>

lemma first_phase:
  assumes "0 \<le> w" "0 \<le> h"
  shows "\<exists>g1. clear_cells (ones w h) (cell_ls w h) = Inr g1 \<and> grid_ok w h g1 \<and>
           (\<forall>q. in_grid w h q \<longrightarrow> cell g1 q = (if is_room w h q then 0 else 1))"
proof -
  have "\<forall>p\<in>set (cell_ls w h). in_grid w h p" by (simp add: set_cell_ls kinds_in_grid)
  from clear_cells_ok[OF ones_ok[OF assms] this] obtain g1 where
    g1: "clear_cells (ones w h) (cell_ls w h) = Inr g1" "grid_ok w h g1"
      "\<forall>q. in_grid w h q \<longrightarrow> cell g1 q = (if q \<in> set (cell_ls w h) then 0 else cell (ones w h) q)"
    by blast
  have "\<forall>q. in_grid w h q \<longrightarrow> cell g1 q = (if is_room w h q then 0 else 1)"
  proof (intro allI impI)
    fix q assume q: "in_grid w h q"
    then have "cell g1 q = (if q \<in> set (cell_ls w h) then 0 else cell (ones w h) q)"
      using g1(3) by blast
    then show "cell g1 q = (if is_room w h q then 0 else 1)"
      using q by (simp add: set_cell_ls ones_cell)
  qed
  then show ?thesis using g1(1,2) by blast
qed

lemma init_same_set: "same_set (init_state n) x y \<longleftrightarrow> 0 \<le> x \<and> x < n \<and> x = y"
  unfolding same_set_def init_root_of by auto

lemma carve_inv_start:
  assumes w: "0 \<le> w" and g1: "grid_ok w h g1"
      "\<forall>q. in_grid w h q \<longrightarrow> cell g1 q = (if is_room w h q then 0 else 1)"
    and c0: "mcd_inv w h c0" "dset c0 = init_state (int (length (cell_ls w h)))"
  shows "carve_inv w h g1 c0 []"
proof -
  have cg: "\<And>q. in_grid w h q \<Longrightarrow> cell g1 q = (if is_room w h q then 0 else 1)"
    using g1(2) by blast
  have v1: "\<forall>p. in_grid w h p \<longrightarrow> cell g1 p = 0 \<or> cell g1 p = 1"
    using cg by auto
  have v2: "\<forall>p. is_room w h p \<longrightarrow> cell g1 p = 0"
    using cg kinds_in_grid(1) by auto
  have v3: "\<forall>p. is_dot w h p \<longrightarrow> cell g1 p = 1"
    using cg kinds_in_grid(3) room_wall_dot_disjoint(2) by (metis zero_neq_one)
  have v4: "\<forall>p. is_wall w h p \<longrightarrow> cell g1 p \<noteq> 0"
    using cg kinds_in_grid(2) room_wall_dot_disjoint(1) by (metis zero_neq_one)
  have ow: "open_walls w h g1 = []"
    unfolding open_walls_def using v4 by (auto simp: filter_empty_conv set_wall_ls)
  then have E: "maze_edges w h g1 = {}" by (simp add: maze_edges_def)
  have v6: "\<forall>a b. is_room w h a \<longrightarrow> is_room w h b \<longrightarrow>
        (same_set (dset c0) (cid c0 a) (cid c0 b) \<longleftrightarrow> (a, b) \<in> component (maze_edges w h g1))"
  proof (intro allI impI)
    fix a b assume ab: "is_room w h a" "is_room w h b"
    have "cid c0 a = cid c0 b \<longleftrightarrow> a = b" using cid_inj[OF c0(1) ab] by auto
    then show "same_set (dset c0) (cid c0 a) (cid c0 b) \<longleftrightarrow> (a, b) \<in> component (maze_edges w h g1)"
      using cid_range[OF c0(1) ab(1)] by (simp add: E component_empty c0(2) init_same_set)
  qed
  have v8: "count' (dset c0) = int (length (cell_ls w h)) - int (length (open_walls w h g1))"
    by (simp add: ow c0(2) init_state_def)
  show ?thesis
    unfolding carve_inv_def using g1(1) c0(1) v1 v2 v3 v4 v6 v8 by (simp add: E forest_empty)
qed

lemma dot_exists: "3 \<le> w \<Longrightarrow> 3 \<le> h \<Longrightarrow> 0 < length (not_care_ls w h)"
proof -
  assume "3 \<le> w" "3 \<le> h"
  then have "is_dot w h (1, 1)" by (simp add: is_dot_def in_grid_def)
  then have "(1, 1) \<in> set (not_care_ls w h)" by (simp add: set_not_care_ls)
  then show ?thesis by (cases "not_care_ls w h") simp_all
qed

lemma cosmetic_ok:
  assumes dims: "3 \<le> w" "3 \<le> h" and r: "rng_ok w h r" and g: "grid_ok w h g"
  shows "\<exists>g'. cosmetic r g (not_care_ls w h) = Inr g' \<and> grid_ok w h g' \<and>
           (\<forall>q. in_grid w h q \<longrightarrow> cell g' q = (if q \<in> chosen_dots w h r then 0 else cell g q))"
proof -
  let ?ncl = "not_care_ls w h"
  have k: "0 \<le> additional_wall r" "additional_wall r < int (length ?ncl)"
    and ch: "\<forall>i\<in>set (chosen r). 0 \<le> i \<and> i < int (length ?ncl)"
    using r by (simp_all add: rng_ok_def list_all_iff)
  have e1: "randint r 0 (int (length ?ncl)) = Inr (additional_wall r)"
    using dot_exists[OF dims] by (simp add: randint_def)
  have e2: "choice r (int (length ?ncl)) (additional_wall r) = Inr (chosen r)"
    using k by (simp add: choice_def)
  have "\<forall>p\<in>set ?ncl. in_grid w h p" by (simp add: set_not_care_ls kinds_in_grid)
  from open_dots_ok[OF g this ch] obtain g' where
    g': "open_dots g ?ncl (chosen r) = Inr g'" "grid_ok w h g'"
      "\<forall>q. in_grid w h q \<longrightarrow>
         cell g' q = (if q \<in> (\<lambda>i. ?ncl ! nat i) ` set (chosen r) then 0 else cell g q)"
    by blast
  have "cosmetic r g ?ncl = Inr g'" by (simp add: cosmetic_def e1 e2 g'(1))
  then show ?thesis using g'(2,3) unfolding chosen_dots_def by blast
qed

lemma chosen_dots_are_dots:
  assumes r: "rng_ok w h r" and q: "q \<in> chosen_dots w h r"
  shows "is_dot w h q"
proof -
  obtain i where i: "i \<in> set (chosen r)" "q = not_care_ls w h ! nat i"
    using q unfolding chosen_dots_def by blast
  have "0 \<le> i \<and> i < int (length (not_care_ls w h))"
    using r i(1) by (simp add: rng_ok_def list_all_iff)
  then have "nat i < length (not_care_ls w h)" by auto
  then have "q \<in> set (not_care_ls w h)" unfolding i(2) by (rule nth_mem)
  then show ?thesis by (simp add: set_not_care_ls)
qed

lemma card_chosen_dots:
  assumes r: "rng_ok w h r"
  shows "card (chosen_dots w h r) = nat (additional_wall r)"
proof -
  let ?ncl = "not_care_ls w h"
  have ch: "\<forall>i\<in>set (chosen r). 0 \<le> i \<and> i < int (length ?ncl)"
    and d: "distinct (chosen r)" and l: "int (length (chosen r)) = additional_wall r"
    using r by (simp_all add: rng_ok_def list_all_iff)
  have "inj_on (\<lambda>i. ?ncl ! nat i) (set (chosen r))"
  proof (rule inj_onI)
    fix i j assume ij: "i \<in> set (chosen r)" "j \<in> set (chosen r)" and e: "?ncl ! nat i = ?ncl ! nat j"
    have "nat i < length ?ncl" "nat j < length ?ncl" using ch ij by auto
    then have "nat i = nat j" using e distinct_not_care_ls[of w h] by (simp add: nth_eq_iff_index_eq)
    moreover have "0 \<le> i" "0 \<le> j" using ch ij by blast+
    ultimately show "i = j" by simp
  qed
  then have "card (chosen_dots w h r) = card (set (chosen r))"
    unfolding chosen_dots_def by (rule card_image)
  also have "\<dots> = length (chosen r)" using d by (rule distinct_card)
  finally show ?thesis using l by simp
qed

section \<open>The constructor as a whole\<close>

lemma maze_run:
  assumes od: "w mod 2 = 1" "h mod 2 = 1" and dims: "3 \<le> w" "3 \<le> h" and r: "rng_ok w h r"
  shows "\<exists>g1 c0 g2 c2 seen g3.
    clear_cells (ones w h) (cell_ls w h) = Inr g1 \<and>
    mcd_init (cell_ls w h) w h = Inr c0 \<and>
    carve g1 c0 (shuffled r) = Some (Inr (g2, c2)) \<and>
    cosmetic r g2 (not_care_ls w h) = Inr g3 \<and>
    KruskalMaze w h r =
      Some (Inr \<lparr>height = h, width = w, index_ls = [1..h * w - 1], grid = g3\<rparr>) \<and>
    (\<forall>q. in_grid w h q \<longrightarrow> cell g1 q = (if is_room w h q then 0 else 1)) \<and>
    carve_inv w h g2 c2 seen \<and> mcd_count c2 = 1 \<and>
    (\<forall>q. in_grid w h q \<longrightarrow> cell g2 q = cell g1 q \<or> (cell g1 q = 1 \<and> cell g2 q = 0)) \<and>
    grid_ok w h g3 \<and>
    (\<forall>q. in_grid w h q \<longrightarrow> cell g3 q = (if q \<in> chosen_dots w h r then 0 else cell g2 q))"
proof -
  have pos: "0 \<le> w" "0 \<le> h" "0 < w" "0 < h" using dims by simp_all
  obtain g1 where g1: "clear_cells (ones w h) (cell_ls w h) = Inr g1" "grid_ok w h g1"
      "\<forall>q. in_grid w h q \<longrightarrow> cell g1 q = (if is_room w h q then 0 else 1)"
    using first_phase[OF pos(1,2)] by blast
  obtain c0 where c0: "mcd_init (cell_ls w h) w h = Inr c0" "mcd_inv w h c0"
      "dset c0 = init_state (int (length (cell_ls w h)))"
    using mcd_init_ok[OF pos(1)] by blast
  have i0: "carve_inv w h g1 c0 []" using pos(1) g1(2,3) c0(2,3) by (rule carve_inv_start)
  have ms: "mset (shuffled r) = mset (wall_ls w h)" using r by (simp add: rng_ok_def)
  have ss: "set (shuffled r) = set (wall_ls w h)" using ms by (rule mset_eq_setD)
  have ds: "distinct (shuffled r)"
    using mset_eq_imp_distinct_iff[OF ms] distinct_wall_ls[of w h] by blast
  have ws: "\<forall>p\<in>set (shuffled r). is_wall w h p" by (simp add: ss set_wall_ls)
  have dj: "set (shuffled r) \<inter> set [] = {}" by simp
  obtain g2 c2 seen where s2: "carve g1 c0 (shuffled r) = Some (Inr (g2, c2))"
      "carve_inv w h g2 c2 seen"
      "mcd_count c2 = 1 \<or> set seen = set [] \<union> set (shuffled r)"
      "\<forall>q. in_grid w h q \<longrightarrow> cell g2 q = cell g1 q \<or> (cell g1 q = 1 \<and> cell g2 q = 0)"
    using carve_ok[OF od i0 ds ws dj] by blast
  have "set seen = set (wall_ls w h) \<Longrightarrow> \<forall>p. is_wall w h p \<longrightarrow> p \<in> set seen"
    by (simp add: set_wall_ls)
  then have fin: "mcd_count c2 = 1 \<or> (\<forall>p. is_wall w h p \<longrightarrow> p \<in> set seen)"
    using s2(3) unfolding ss by auto
  have one: "mcd_count c2 = 1" by (rule carve_complete[OF od pos(3,4) s2(2) fin])
  have go2: "grid_ok w h g2" using s2(2) by (simp add: carve_inv_def)
  obtain g3 where g3: "cosmetic r g2 (not_care_ls w h) = Inr g3" "grid_ok w h g3"
      "\<forall>q. in_grid w h q \<longrightarrow> cell g3 q = (if q \<in> chosen_dots w h r then 0 else cell g2 q)"
    using cosmetic_ok[OF dims r go2] by blast
  have hm: "\<not> (h mod 2 = 0 \<or> h < 3)" "\<not> (w mod 2 = 0 \<or> w < 3)" using od dims by simp_all
  have km: "KruskalMaze w h r =
      Some (Inr \<lparr>height = h, width = w, index_ls = [1..h * w - 1], grid = g3\<rparr>)"
    unfolding KruskalMaze_def using hm g1(1) c0(1) s2(1) g3(1) by (simp add: lift_def)
  show ?thesis
    by (intro exI[of _ g1] exI[of _ c0] exI[of _ g2] exI[of _ c2] exI[of _ seen] exI[of _ g3]
        conjI g1(1) g1(3) c0(1) s2(1) g3(1) km s2(2) one s2(4) g3(2) g3(3))
qed

section \<open>The finished maze\<close>

lemma maze_tree:
  assumes inv: "carve_inv w h g c seen" and one: "mcd_count c = 1"
  shows "length (open_walls w h g) = length (cell_ls w h) - 1"
    and "is_room w h a \<Longrightarrow> is_room w h b \<Longrightarrow> \<exists>!p. simple_path (maze_edges w h g) a b p"
proof -
  have cnt: "count' (dset c) = int (length (cell_ls w h)) - int (length (open_walls w h g))"
    and f: "forest (maze_edges w h g)"
    using inv unfolding carve_inv_def by blast+
  show "length (open_walls w h g) = length (cell_ls w h) - 1"
    using cnt one by (simp add: mcd_count_def wqu_count_def)
  assume ab: "is_room w h a" "is_room w h b"
  have "(a, b) \<in> component (maze_edges w h g)" using inv one ab by (rule connected_if_count_one)
  then obtain p where p: "simple_path (maze_edges w h g) a b p"
    using exists_simple_path[of a b "maze_edges w h g"] by blast
  show "\<exists>!p. simple_path (maze_edges w h g) a b p"
  proof
    show "simple_path (maze_edges w h g) a b p" by (rule p)
    fix q assume "simple_path (maze_edges w h g) a b q"
    then show "q = p" using f p unfolding forest_def by blast
  qed
qed

lemma cosmetic_keeps_walls:
  assumes r: "rng_ok w h r"
    and g3: "\<forall>q. in_grid w h q \<longrightarrow> cell g3 q = (if q \<in> chosen_dots w h r then 0 else cell g2 q)"
  shows "\<forall>p. \<not> is_dot w h p \<longrightarrow> in_grid w h p \<longrightarrow> cell g3 p = cell g2 p"
proof (intro allI impI)
  fix p assume p: "\<not> is_dot w h p" "in_grid w h p"
  have "p \<notin> chosen_dots w h r" using chosen_dots_are_dots[OF r] p(1) by blast
  moreover have "cell g3 p = (if p \<in> chosen_dots w h r then 0 else cell g2 p)"
    using g3 p(2) by blast
  ultimately show "cell g3 p = cell g2 p" by simp
qed

lemma grid_values:
  assumes g: "grid_ok w h g" and v: "\<forall>q. in_grid w h q \<longrightarrow> cell g q = 0 \<or> cell g q = 1"
  shows "\<forall>row\<in>set g. \<forall>v\<in>set row. v = 0 \<or> v = 1"
proof (intro ballI)
  fix row x assume row: "row \<in> set g" and x: "x \<in> set row"
  obtain i where i: "i < length g" "g ! i = row" using row by (auto simp: in_set_conv_nth)
  obtain j where j: "j < length row" "row ! j = x" using x by (auto simp: in_set_conv_nth)
  have lg: "length g = nat w" using g by (simp add: grid_ok_def)
  have lr: "length row = nat h" using g row by (simp add: grid_ok_def list_all_iff)
  have "int i < w" "int j < h" using i(1) j(1) lg lr by linarith+
  then have "in_grid w h (int i, int j)" by (simp add: in_grid_def)
  then have "cell g (int i, int j) = 0 \<or> cell g (int i, int j) = 1" using v by blast
  then show "x = 0 \<or> x = 1" using i(2) j(2) by (simp add: cell_def)
qed

lemma maze_phases:
  assumes od: "w mod 2 = 1" "h mod 2 = 1" and dims: "3 \<le> w" "3 \<le> h" and r: "rng_ok w h r"
  shows "\<exists>g1 c0 g2 c2 seen g3.
    clear_cells (ones w h) (cell_ls w h) = Inr g1 \<and>
    mcd_init (cell_ls w h) w h = Inr c0 \<and>
    carve g1 c0 (shuffled r) = Some (Inr (g2, c2)) \<and>
    cosmetic r g2 (not_care_ls w h) = Inr g3 \<and>
    KruskalMaze w h r =
      Some (Inr \<lparr>height = h, width = w, index_ls = [1..h * w - 1], grid = g3\<rparr>) \<and>
    carve_inv w h g2 c2 seen \<and>
    only_opens w h (ones w h) g1 \<and> only_opens w h g1 g2 \<and> only_opens w h g2 g3 \<and>
    grid_ok w h g3 \<and>
    (\<forall>q. in_grid w h q \<longrightarrow> cell g3 q = 0 \<or> cell g3 q = 1) \<and>
    (\<forall>q. is_room w h q \<longrightarrow> cell g3 q = 0) \<and>
    (\<forall>q. in_grid w h q \<longrightarrow> cell g3 q = (if q \<in> chosen_dots w h r then 0 else cell g2 q)) \<and>
    {q. in_grid w h q \<and> cell g3 q \<noteq> cell g2 q} = chosen_dots w h r"
proof -
  obtain g1 c0 g2 c2 seen g3 where s:
    "clear_cells (ones w h) (cell_ls w h) = Inr g1"
    "mcd_init (cell_ls w h) w h = Inr c0"
    "carve g1 c0 (shuffled r) = Some (Inr (g2, c2))"
    "cosmetic r g2 (not_care_ls w h) = Inr g3"
    "KruskalMaze w h r =
      Some (Inr \<lparr>height = h, width = w, index_ls = [1..h * w - 1], grid = g3\<rparr>)"
    "\<forall>q. in_grid w h q \<longrightarrow> cell g1 q = (if is_room w h q then 0 else 1)"
    "carve_inv w h g2 c2 seen"
    "\<forall>q. in_grid w h q \<longrightarrow> cell g2 q = cell g1 q \<or> (cell g1 q = 1 \<and> cell g2 q = 0)"
    "grid_ok w h g3"
    "\<forall>q. in_grid w h q \<longrightarrow> cell g3 q = (if q \<in> chosen_dots w h r then 0 else cell g2 q)"
    using maze_run[OF od dims r] by blast
  have c3: "\<And>q. in_grid w h q \<Longrightarrow> cell g3 q = (if q \<in> chosen_dots w h r then 0 else cell g2 q)"
    using s(10) by blast
  have i2: "\<And>p. in_grid w h p \<Longrightarrow> cell g2 p = 0 \<or> cell g2 p = 1"
      "\<And>p. is_room w h p \<Longrightarrow> cell g2 p = 0"
      "\<And>p. is_dot w h p \<Longrightarrow> cell g2 p = 1"
    using s(7) unfolding carve_inv_def by blast+
  have o1: "only_opens w h (ones w h) g1"
    unfolding only_opens_def
  proof (intro allI impI)
    fix q assume q: "in_grid w h q"
    then have "cell g1 q = (if is_room w h q then 0 else 1)" using s(6) by blast
    then show "cell g1 q = cell (ones w h) q \<or> (cell (ones w h) q = 1 \<and> cell g1 q = 0)"
      using ones_cell[OF q] by auto
  qed
  have o2: "only_opens w h g1 g2" unfolding only_opens_def using s(8) .
  have o3: "only_opens w h g2 g3"
    unfolding only_opens_def
  proof (intro allI impI)
    fix q assume q: "in_grid w h q"
    show "cell g3 q = cell g2 q \<or> (cell g2 q = 1 \<and> cell g3 q = 0)"
    proof (cases "q \<in> chosen_dots w h r")
      case True
      then have "cell g2 q = 1" using chosen_dots_are_dots[OF r] i2(3) by blast
      then show ?thesis using c3[OF q] True by simp
    next
      case False
      then show ?thesis using c3[OF q] by simp
    qed
  qed
  have v: "\<forall>q. in_grid w h q \<longrightarrow> cell g3 q = 0 \<or> cell g3 q = 1"
  proof (intro allI impI)
    fix q assume q: "in_grid w h q"
    show "cell g3 q = 0 \<or> cell g3 q = 1" using c3[OF q] i2(1)[OF q] by auto
  qed
  have ro: "\<forall>q. is_room w h q \<longrightarrow> cell g3 q = 0"
  proof (intro allI impI)
    fix q assume q: "is_room w h q"
    show "cell g3 q = 0" using c3[OF kinds_in_grid(1)[OF q]] i2(2)[OF q] by auto
  qed
  have ch: "{q. in_grid w h q \<and> cell g3 q \<noteq> cell g2 q} = chosen_dots w h r"
  proof
    show "{q. in_grid w h q \<and> cell g3 q \<noteq> cell g2 q} \<subseteq> chosen_dots w h r"
    proof
      fix q assume "q \<in> {q. in_grid w h q \<and> cell g3 q \<noteq> cell g2 q}"
      then have q: "in_grid w h q" "cell g3 q \<noteq> cell g2 q" by simp_all
      show "q \<in> chosen_dots w h r" using c3[OF q(1)] q(2) by (cases "q \<in> chosen_dots w h r") simp_all
    qed
    show "chosen_dots w h r \<subseteq> {q. in_grid w h q \<and> cell g3 q \<noteq> cell g2 q}"
    proof
      fix q assume q: "q \<in> chosen_dots w h r"
      then have d: "is_dot w h q" by (rule chosen_dots_are_dots[OF r])
      then have ig: "in_grid w h q" by (rule kinds_in_grid(3))
      have "cell g2 q = 1" using d by (rule i2(3))
      moreover have "cell g3 q = 0" using c3[OF ig] q by simp
      ultimately show "q \<in> {q. in_grid w h q \<and> cell g3 q \<noteq> cell g2 q}" using ig by simp
    qed
  qed
  show ?thesis
    by (intro exI[of _ g1] exI[of _ c0] exI[of _ g2] exI[of _ c2] exI[of _ seen] exI[of _ g3]
        conjI s(1) s(2) s(3) s(4) s(5) s(7) o1 o2 o3 s(9) v ro s(10) ch)
qed

lemma kinds_cover: "in_grid w h q \<Longrightarrow> is_room w h q \<or> is_wall w h q \<or> is_dot w h q"
proof -
  assume g: "in_grid w h q"
  have "(fst q mod 2 = 0 \<and> snd q mod 2 = 0) \<or> fst q mod 2 \<noteq> snd q mod 2 \<or>
        (fst q mod 2 = 1 \<and> snd q mod 2 = 1)"
    by presburger
  then show ?thesis using g by (auto simp: is_room_def is_wall_def is_dot_def)
qed

lemma zero_cells_count:
  assumes r: "rng_ok w h r" and inv: "carve_inv w h g2 c2 seen"
    and g3: "\<forall>q. in_grid w h q \<longrightarrow> cell g3 q = (if q \<in> chosen_dots w h r then 0 else cell g2 q)"
  shows "card {q. in_grid w h q \<and> cell g3 q = 0} =
           length (cell_ls w h) + length (open_walls w h g2) + length (chosen r)"
proof -
  let ?A = "set (cell_ls w h)"
  let ?B = "{p. is_wall w h p \<and> cell g2 p = 0}"
  let ?C = "chosen_dots w h r"
  have c3: "\<And>q. in_grid w h q \<Longrightarrow> cell g3 q = (if q \<in> ?C then 0 else cell g2 q)"
    using g3 by blast
  have i2: "\<And>p. is_room w h p \<Longrightarrow> cell g2 p = 0" "\<And>p. is_dot w h p \<Longrightarrow> cell g2 p = 1"
    using inv unfolding carve_inv_def by blast+
  have cd: "\<And>q. q \<in> ?C \<Longrightarrow> is_dot w h q" by (rule chosen_dots_are_dots[OF r])
  have Z: "{q. in_grid w h q \<and> cell g3 q = 0} = ?A \<union> ?B \<union> ?C"
  proof
    show "{q. in_grid w h q \<and> cell g3 q = 0} \<subseteq> ?A \<union> ?B \<union> ?C"
    proof
      fix q assume "q \<in> {q. in_grid w h q \<and> cell g3 q = 0}"
      then have q: "in_grid w h q" "cell g3 q = 0" by simp_all
      show "q \<in> ?A \<union> ?B \<union> ?C"
      proof (cases "q \<in> ?C")
        case True
        then show ?thesis by simp
      next
        case False
        then have z: "cell g2 q = 0" using c3[OF q(1)] q(2) by simp
        then have "\<not> is_dot w h q" using i2(2)[of q] by auto
        then have "is_room w h q \<or> is_wall w h q" using kinds_cover[OF q(1)] by blast
        then show ?thesis using z by (auto simp: set_cell_ls)
      qed
    qed
    show "?A \<union> ?B \<union> ?C \<subseteq> {q. in_grid w h q \<and> cell g3 q = 0}"
    proof
      fix q assume "q \<in> ?A \<union> ?B \<union> ?C"
      then consider (a) "is_room w h q" | (b) "is_wall w h q" "cell g2 q = 0" | (c) "q \<in> ?C"
        by (auto simp: set_cell_ls)
      then show "q \<in> {q. in_grid w h q \<and> cell g3 q = 0}"
      proof cases
        case a
        then have "cell g3 q = 0" using c3[OF kinds_in_grid(1)[OF a]] i2(1)[OF a] by auto
        then show ?thesis using kinds_in_grid(1)[OF a] by simp
      next
        case b
        then have "cell g3 q = 0" using c3[OF kinds_in_grid(2)[OF b(1)]] by auto
        then show ?thesis using kinds_in_grid(2)[OF b(1)] by simp
      next
        case c
        then have "in_grid w h q" using cd kinds_in_grid(3) by blast
        then show ?thesis using c3[of q] c by simp
      qed
    qed
  qed
  have fA: "finite ?A" by simp
  have fB: "finite ?B" by (rule finite_walls)
  have fC: "finite ?C" unfolding chosen_dots_def by simp
  have dAB: "?A \<inter> ?B = {}"
  proof (rule ccontr)
    assume "?A \<inter> ?B \<noteq> {}"
    then obtain q where q: "q \<in> ?A" "q \<in> ?B" by blast
    have "is_room w h q" using q(1) by (simp add: set_cell_ls)
    moreover have "is_wall w h q" using q(2) by simp
    ultimately show False using room_wall_dot_disjoint(1)[of w h q] by blast
  qed
  have dC: "(?A \<union> ?B) \<inter> ?C = {}"
  proof (rule ccontr)
    assume "(?A \<union> ?B) \<inter> ?C \<noteq> {}"
    then obtain q where q: "q \<in> ?A \<union> ?B" "q \<in> ?C" by blast
    have d: "is_dot w h q" using q(2) by (rule cd)
    have "is_room w h q \<or> is_wall w h q" using q(1) by (auto simp: set_cell_ls)
    then show False
      using d room_wall_dot_disjoint(2)[of w h q] room_wall_dot_disjoint(3)[of w h q] by blast
  qed
  have "card (?A \<union> ?B \<union> ?C) = card (?A \<union> ?B) + card ?C"
    using fA fB fC dC by (intro card_Un_disjoint) simp_all
  also have "card (?A \<union> ?B) = card ?A + card ?B"
    using fA fB dAB by (rule card_Un_disjoint)
  also have "card ?A = length (cell_ls w h)" using distinct_cell_ls by (rule distinct_card)
  also have "card ?B = length (open_walls w h g2)" by (simp add: length_open_walls)
  also have "card ?C = length (chosen r)"
  proof -
    have "int (length (chosen r)) = additional_wall r" using r by (simp add: rng_ok_def)
    then have "nat (additional_wall r) = length (chosen r)" by linarith
    then show ?thesis using card_chosen_dots[OF r] by simp
  qed
  finally show ?thesis unfolding Z .
qed

section \<open>Properties of the maze generator\<close>

text \<open>
  C7.  A height that is even or below 3 raises the height error, and otherwise a width
  that is even or below 3 raises the width error; both happen before anything else is
  computed, whatever the random source.  In particular width 4, height 2 and width 1
  fail, and width 5 with height 3 succeeds.
\<close>

theorem KruskalMaze_dimension_check:
  "(h mod 2 = 0 \<or> h < 3 \<longrightarrow> KruskalMaze w h r = Some (Inl IllegalHeight)) \<and>
   (\<not> (h mod 2 = 0 \<or> h < 3) \<and> (w mod 2 = 0 \<or> w < 3) \<longrightarrow>
      KruskalMaze w h r = Some (Inl IllegalWidth)) \<and>
   (\<exists>e. KruskalMaze 4 h r = Some (Inl e)) \<and>
   (\<exists>e. KruskalMaze w 2 r = Some (Inl e)) \<and>
   (\<exists>e. KruskalMaze 1 h r = Some (Inl e)) \<and>
   (rng_ok 5 3 r \<longrightarrow> (\<exists>m. KruskalMaze 5 3 r = Some (Inr m) \<and> width m = 5 \<and> height m = 3))"
proof -
  have a: "h mod 2 = 0 \<or> h < 3 \<longrightarrow> KruskalMaze w h r = Some (Inl IllegalHeight)"
    by (simp add: KruskalMaze_def)
  have b: "\<not> (h mod 2 = 0 \<or> h < 3) \<and> (w mod 2 = 0 \<or> w < 3) \<longrightarrow>
      KruskalMaze w h r = Some (Inl IllegalWidth)"
    by (auto simp: KruskalMaze_def)
  have c: "\<exists>e. KruskalMaze 4 h r = Some (Inl e)" by (simp add: KruskalMaze_def)
  have d: "\<exists>e. KruskalMaze w 2 r = Some (Inl e)" by (simp add: KruskalMaze_def)
  have e: "\<exists>e. KruskalMaze 1 h r = Some (Inl e)" by (simp add: KruskalMaze_def)
  have f: "rng_ok 5 3 r \<longrightarrow> (\<exists>m. KruskalMaze 5 3 r = Some (Inr m) \<and> width m = 5 \<and> height m = 3)"
  proof
    assume r: "rng_ok 5 3 r"
    have h: "(5::int) mod 2 = 1" "(3::int) mod 2 = 1" "(3::int) \<le> 5" "(3::int) \<le> 3" by simp_all
    obtain g3 where "KruskalMaze 5 3 r =
        Some (Inr \<lparr>height = 3, width = 5, index_ls = [1..3 * 5 - 1], grid = g3\<rparr>)"
      using maze_run[OF h r] by blast
    then show "\<exists>m. KruskalMaze 5 3 r = Some (Inr m) \<and> width m = 5 \<and> height m = 3" by simp
  qed
  show ?thesis using a b c d e f by blast
qed

theorem KruskalMaze_dimension_check_witness:
  "KruskalMaze 5 2
     \<lparr>shuffled = [(3, 2), (0, 1), (1, 0), (4, 1), (2, 1), (1, 2), (3, 0)],
      additional_wall = 1, chosen = [1]\<rparr> = Some (Inl IllegalHeight) \<and>
   KruskalMaze 4 3
     \<lparr>shuffled = [(3, 2), (0, 1), (1, 0), (4, 1), (2, 1), (1, 2), (3, 0)],
      additional_wall = 1, chosen = [1]\<rparr> = Some (Inl IllegalWidth) \<and>
   (\<exists>m. KruskalMaze 5 3
     \<lparr>shuffled = [(3, 2), (0, 1), (1, 0), (4, 1), (2, 1), (1, 2), (3, 0)],
      additional_wall = 1, chosen = [1]\<rparr> = Some (Inr m) \<and> width m = 5 \<and> height m = 3)"
proof -
  let ?r = "\<lparr>shuffled = [(3, 2), (0, 1), (1, 0), (4, 1), (2, 1), (1, 2), (3, 0)],
      additional_wall = 1, chosen = [1]\<rparr>"
  have ok: "rng_ok 5 3 ?r"
    by (simp add: rng_ok_def wall_ls_def not_care_ls_def py_range_def upto.simps)
  have h2: "(2::int) mod 2 = 0 \<or> (2::int) < 3" by simp
  have w4: "\<not> ((3::int) mod 2 = 0 \<or> (3::int) < 3) \<and> ((4::int) mod 2 = 0 \<or> (4::int) < 3)" by simp
  show ?thesis
    using KruskalMaze_dimension_check[of 2 5 ?r] KruskalMaze_dimension_check[of 3 4 ?r] ok h2 w4
    by blast
qed

text \<open>
  C1.  For odd width and height of at least 3 and any outcome of the random source that
  numpy allows, the carving loop ends with the disjoint-set count at 1; the number of
  wall candidates marked passable is then the number of room cells minus one, also in
  the finished grid, and in the graph whose vertices are the room cells and whose edges
  are the passable wall candidates there is exactly one simple path between any two room
  cells.
\<close>

theorem KruskalMaze_spanning_tree:
  assumes "w mod 2 = 1" and "3 \<le> w" and "h mod 2 = 1" and "3 \<le> h" and "rng_ok w h r"
  shows "\<exists>g1 c0 g2 c2 m.
     clear_cells (ones w h) (cell_ls w h) = Inr g1 \<and>
     mcd_init (cell_ls w h) w h = Inr c0 \<and>
     carve g1 c0 (shuffled r) = Some (Inr (g2, c2)) \<and> mcd_count c2 = 1 \<and>
     KruskalMaze w h r = Some (Inr m) \<and>
     length (open_walls w h g2) = length (cell_ls w h) - 1 \<and>
     length (open_walls w h (grid m)) = length (cell_ls w h) - 1 \<and>
     (\<forall>a\<in>set (cell_ls w h). \<forall>b\<in>set (cell_ls w h).
        \<exists>!p. simple_path (maze_edges w h (grid m)) a b p)"
proof -
  obtain g1 c0 g2 c2 seen g3 where s:
    "clear_cells (ones w h) (cell_ls w h) = Inr g1"
    "mcd_init (cell_ls w h) w h = Inr c0"
    "carve g1 c0 (shuffled r) = Some (Inr (g2, c2))"
    "KruskalMaze w h r =
      Some (Inr \<lparr>height = h, width = w, index_ls = [1..h * w - 1], grid = g3\<rparr>)"
    "carve_inv w h g2 c2 seen" "mcd_count c2 = 1"
    "\<forall>q. in_grid w h q \<longrightarrow> cell g3 q = (if q \<in> chosen_dots w h r then 0 else cell g2 q)"
    using maze_run[OF assms(1,3,2,4,5)] by blast
  let ?m = "\<lparr>height = h, width = w, index_ls = [1..h * w - 1], grid = g3\<rparr>"
  have "\<forall>p. is_wall w h p \<longrightarrow> cell g3 p = cell g2 p"
    using cosmetic_keeps_walls[OF assms(5) s(7)] room_wall_dot_disjoint(3) kinds_in_grid(2)
    by blast
  then have same: "open_walls w h g3 = open_walls w h g2" "maze_edges w h g3 = maze_edges w h g2"
    by (rule walls_same)+
  have n: "length (open_walls w h g2) = length (cell_ls w h) - 1"
    using s(5,6) by (rule maze_tree(1))
  have u: "\<forall>a\<in>set (cell_ls w h). \<forall>b\<in>set (cell_ls w h).
        \<exists>!p. simple_path (maze_edges w h g3) a b p"
    unfolding same
  proof (intro ballI)
    fix a b assume "a \<in> set (cell_ls w h)" "b \<in> set (cell_ls w h)"
    then have "is_room w h a" "is_room w h b" by (simp_all add: set_cell_ls)
    then show "\<exists>!p. simple_path (maze_edges w h g2) a b p" by (rule maze_tree(2)[OF s(5,6)])
  qed
  show ?thesis
    using s(1,2,3,6) s(4) n u same(1)
    by (intro exI[of _ g1] exI[of _ c0] exI[of _ g2] exI[of _ c2] exI[of _ ?m]) simp
qed

theorem KruskalMaze_spanning_tree_witness:
  "\<exists>m. KruskalMaze 3 3
       \<lparr>shuffled = [(0, 1), (1, 0), (2, 1), (1, 2)], additional_wall = 0, chosen = []\<rparr>
         = Some (Inr m) \<and>
     length (open_walls 3 3 (grid m)) = length (cell_ls 3 3) - 1 \<and>
     (\<forall>a\<in>set (cell_ls 3 3). \<forall>b\<in>set (cell_ls 3 3).
        \<exists>!p. simple_path (maze_edges 3 3 (grid m)) a b p)"
proof -
  let ?r = "\<lparr>shuffled = [(0, 1), (1, 0), (2, 1), (1, 2)], additional_wall = 0, chosen = []\<rparr>"
  have ok: "rng_ok 3 3 ?r"
    by (simp add: rng_ok_def wall_ls_def not_care_ls_def py_range_def upto.simps)
  have h: "(3::int) mod 2 = 1" "(3::int) \<le> 3" by simp_all
  show ?thesis using KruskalMaze_spanning_tree[OF h h ok] by blast
qed

text \<open>
  C10.  The grid starts all 1.  Each of the three phases that write to it (clearing the
  room cells, carving, the cosmetic pass) leaves every cell unchanged or takes it from
  1 to 0, so no cell ever goes back to 1; the finished grid has shape \<open>(w, h)\<close>, holds
  only the values 0 and 1, and every room cell is 0.  The cells that are 0 at the end
  are as many as the writes made (one per room cell, one per wall candidate carved, one
  per chosen junction dot), so no write fell on a cell that was already 0.
\<close>

theorem KruskalMaze_only_opens:
  assumes "w mod 2 = 1" and "3 \<le> w" and "h mod 2 = 1" and "3 \<le> h" and "rng_ok w h r"
  shows "\<exists>g1 c0 g2 c2 m.
     clear_cells (ones w h) (cell_ls w h) = Inr g1 \<and>
     mcd_init (cell_ls w h) w h = Inr c0 \<and>
     carve g1 c0 (shuffled r) = Some (Inr (g2, c2)) \<and>
     cosmetic r g2 (not_care_ls w h) = Inr (grid m) \<and>
     KruskalMaze w h r = Some (Inr m) \<and>
     (\<forall>q. in_grid w h q \<longrightarrow> cell (ones w h) q = 1) \<and>
     only_opens w h (ones w h) g1 \<and> only_opens w h g1 g2 \<and> only_opens w h g2 (grid m) \<and>
     grid_ok w h (grid m) \<and>
     (\<forall>row\<in>set (grid m). \<forall>v\<in>set row. v = 0 \<or> v = 1) \<and>
     (\<forall>q\<in>set (cell_ls w h). cell (grid m) q = 0) \<and>
     card {q. in_grid w h q \<and> cell (grid m) q = 0} =
       length (cell_ls w h) + length (open_walls w h g2) + length (chosen r)"
proof -
  obtain g1 c0 g2 c2 seen g3 where s:
    "clear_cells (ones w h) (cell_ls w h) = Inr g1"
    "mcd_init (cell_ls w h) w h = Inr c0"
    "carve g1 c0 (shuffled r) = Some (Inr (g2, c2))"
    "cosmetic r g2 (not_care_ls w h) = Inr g3"
    "KruskalMaze w h r =
      Some (Inr \<lparr>height = h, width = w, index_ls = [1..h * w - 1], grid = g3\<rparr>)"
    "only_opens w h (ones w h) g1" "only_opens w h g1 g2" "only_opens w h g2 g3"
    "grid_ok w h g3"
    "\<forall>q. in_grid w h q \<longrightarrow> cell g3 q = 0 \<or> cell g3 q = 1"
    "\<forall>q. is_room w h q \<longrightarrow> cell g3 q = 0"
    "carve_inv w h g2 c2 seen"
    "\<forall>q. in_grid w h q \<longrightarrow> cell g3 q = (if q \<in> chosen_dots w h r then 0 else cell g2 q)"
    using maze_phases[OF assms(1,3,2,4,5)] by blast
  let ?m = "\<lparr>height = h, width = w, index_ls = [1..h * w - 1], grid = g3\<rparr>"
  have z: "card {q. in_grid w h q \<and> cell g3 q = 0} =
       length (cell_ls w h) + length (open_walls w h g2) + length (chosen r)"
    using assms(5) s(12,13) by (rule zero_cells_count)
  have a: "\<forall>q. in_grid w h q \<longrightarrow> cell (ones w h) q = 1" by (simp add: ones_cell)
  have v: "\<forall>row\<in>set g3. \<forall>v\<in>set row. v = 0 \<or> v = 1" using s(9,10) by (rule grid_values)
  have ro: "\<forall>q\<in>set (cell_ls w h). cell g3 q = 0"
  proof
    fix q assume "q \<in> set (cell_ls w h)"
    then have "is_room w h q" by (simp add: set_cell_ls)
    then show "cell g3 q = 0" using s(11) by blast
  qed
  show ?thesis
    using s(1-9) a v ro z
    by (intro exI[of _ g1] exI[of _ c0] exI[of _ g2] exI[of _ c2] exI[of _ ?m]) simp
qed

theorem KruskalMaze_only_opens_witness:
  "\<exists>m. KruskalMaze 5 3
       \<lparr>shuffled = [(3, 2), (0, 1), (1, 0), (4, 1), (2, 1), (1, 2), (3, 0)],
        additional_wall = 1, chosen = [1]\<rparr> = Some (Inr m) \<and>
     grid_ok 5 3 (grid m) \<and>
     (\<forall>row\<in>set (grid m). \<forall>v\<in>set row. v = 0 \<or> v = 1) \<and>
     (\<forall>q\<in>set (cell_ls 5 3). cell (grid m) q = 0)"
proof -
  let ?r = "\<lparr>shuffled = [(3, 2), (0, 1), (1, 0), (4, 1), (2, 1), (1, 2), (3, 0)],
      additional_wall = 1, chosen = [1]\<rparr>"
  have ok: "rng_ok 5 3 ?r"
    by (simp add: rng_ok_def wall_ls_def not_care_ls_def py_range_def upto.simps)
  have h: "(5::int) mod 2 = 1" "(3::int) \<le> 5" "(3::int) mod 2 = 1" "(3::int) \<le> 3" by simp_all
  show ?thesis using KruskalMaze_only_opens[OF h ok] by blast
qed




end
